theory Spec2Isabelle
  imports Complex_Main "HOL-Library.Sublist"
begin

section \<open>Strings\<close>

text \<open>
  Python strings are modelled as HOL strings (lists of characters).  The two string
  methods that \<^verbatim>\<open>main.py\<close> uses are \<^verbatim>\<open>str.replace\<close> and \<^verbatim>\<open>str.strip\<close>.

  \<^verbatim>\<open>s.replace(old, new)\<close> scans \<^verbatim>\<open>s\<close> from the left and replaces every
  non-overlapping occurrence of \<^verbatim>\<open>old\<close>; with an empty \<^verbatim>\<open>old\<close> it puts
  \<^verbatim>\<open>new\<close> before every character and at the end.
\<close>

fun str_replace :: "string \<Rightarrow> string \<Rightarrow> string \<Rightarrow> string" where
  "str_replace old new [] = (if old = [] then new else [])"
| "str_replace old new (c # cs) =
     (if old = [] then new @ c # str_replace old new cs
      else if prefix old (c # cs)
        then new @ str_replace old new (drop (length old) (c # cs))
      else c # str_replace old new cs)"

text \<open>
  \<^verbatim>\<open>s.strip()\<close> removes leading and trailing whitespace.  For the code points below
  256 the whitespace characters of a Python string are the following.
\<close>

definition is_space :: "char \<Rightarrow> bool" where
  "is_space c = (of_char c \<in> {9, 10, 11, 12, 13, 28, 29, 30, 31, 32, 133, 160 :: nat})"

definition strip :: "string \<Rightarrow> string" where
  "strip s = rev (dropWhile is_space (rev (dropWhile is_space s)))"

section \<open>Text normalisation: \<^verbatim>\<open>clean_comment\<close>\<close>

text \<open>
  \<^verbatim>\<open>
  def clean_comment(comment):
      if not comment:
          return ""
      text = comment.replace("<br>", "\n")
      text = text.replace("&gt;", ">").replace("&quot;", '"')
      return text
  \<close>
  The argument is a string or \<^verbatim>\<open>None\<close>; both \<^verbatim>\<open>None\<close> and the empty string are
  falsy.
\<close>

definition newline :: string where
  "newline = [CHR 0x0A]"

definition dquote :: string where
  "dquote = [CHR 0x22]"

definition clean_comment :: "string option \<Rightarrow> string" where
  "clean_comment comment =
     (case comment of
        None \<Rightarrow> []
      | Some s \<Rightarrow>
          if s = [] then []
          else str_replace ''&quot;'' dquote
                 (str_replace ''&gt;'' ''>'' (str_replace ''<br>'' newline s)))"

section \<open>Exceptions\<close>

text \<open>
  The Python exceptions that the program can meet.  \<open>Request_exception\<close> stands for
  whatever \<^verbatim>\<open>requests.post\<close> raises, \<open>Body_error\<close> for what the extraction of a
  verdict from a response body raises, \<open>OS_error\<close> for a failure of \<^verbatim>\<open>open\<close> or of
  a write.
\<close>

datatype error =
    Unicode_decode_error | Json_decode_error | Attribute_error | Key_error | OS_error
  | Request_exception | Body_error | Value_error

section \<open>The raw file\<close>

text \<open>
  A Post Record as \<^verbatim>\<open>collect_posts\<close> builds it.  The \<^verbatim>\<open>metadata\<close> entry (the
  constant board name and the wall-clock time of scraping) is left out.
\<close>

record post_record =
  thread_id :: int
  post_id :: int
  timestamp :: int
  comment :: string

text \<open>
  A line of the file is described by what reading it gives: its bytes are not valid
  UTF-8 (\<open>Undecodable\<close>); or \<^verbatim>\<open>json.loads\<close> rejects its text (\<open>Corrupt\<close>); or it is
  JSON from which no comment can be taken, because it is not an object or its
  \<^verbatim>\<open>comment\<close> is not a string (\<open>Not_record\<close>); or it is a JSON object, given by
  those of the four entries of a Post Record that it has (\<open>None\<close> for a missing key).
  The values of \<^verbatim>\<open>thread_id\<close>, \<^verbatim>\<open>post_id\<close> and \<^verbatim>\<open>timestamp\<close> are taken to be
  integers.
\<close>

record entry =
  e_thread_id :: "int option"
  e_post_id :: "int option"
  e_timestamp :: "int option"
  e_comment :: "string option"

datatype line = Undecodable | Corrupt | Not_record | Object entry

definition entry_of :: "post_record \<Rightarrow> entry" where
  "entry_of r =
     \<lparr>e_thread_id = Some (thread_id r), e_post_id = Some (post_id r),
      e_timestamp = Some (timestamp r), e_comment = Some (comment r)\<rparr>"

abbreviation Post :: "post_record \<Rightarrow> line" where
  "Post r \<equiv> Object (entry_of r)"

text \<open>
  The file is a sequence of lines that end with a newline, possibly followed by text
  without a newline (left by a crash or by a write that failed half-way).  Such an
  unterminated end is either blank (white space only) or some other text, described by
  what it gives when it is read as a line.
\<close>

datatype tail = No_tail | Blank | Open line

record textfile =
  full_lines :: "line list"
  last_part :: tail

definition empty_file :: textfile where
  "empty_file = \<lparr>full_lines = [], last_part = No_tail\<rparr>"

text \<open>
  The lines that \<^verbatim>\<open>for line in f\<close> delivers: an unterminated end is delivered as
  the last line, and \<^verbatim>\<open>json.loads\<close> rejects a blank one.
\<close>

definition file_lines :: "textfile \<Rightarrow> line list" where
  "file_lines f =
     full_lines f @ (case last_part f of No_tail \<Rightarrow> [] | Blank \<Rightarrow> [Corrupt] | Open l \<Rightarrow> [l])"

text \<open>
  \<^verbatim>\<open>save_posts\<close> opens the file for appending and writes \<^verbatim>\<open>json.dumps(p) + "\n"\<close>
  for every post, without looking at what the file holds:
  \<^verbatim>\<open>
  def save_posts(posts, filename):
      with open(filename, "a", encoding="utf-8") as f:
          for p in posts:
              f.write(json.dumps(p, ensure_ascii=False) + "\n")
  \<close>
  So the first record lands on the unterminated end of the file, if there is one.  The
  line that results is the record itself after a blank end; after any other text it is
  not valid JSON any more (the text of a record is a complete JSON value, so nothing
  but white space can stand before it), and it stays undecodable after undecodable
  bytes.
\<close>

fun glued :: "tail \<Rightarrow> post_record \<Rightarrow> line" where
  "glued No_tail r = Post r"
| "glued Blank r = Post r"
| "glued (Open Undecodable) r = Undecodable"
| "glued (Open l) r = Corrupt"

text \<open>
  Whether the call succeeds is not decided by the program: \<^verbatim>\<open>open\<close> or the write
  can raise and leave the file as it was (\<open>Refused\<close>; the encoding of a text that
  UTF-8 cannot encode does the same), or the write can raise after a part of the text
  has reached the file (\<open>Torn\<close>).  A torn write leaves an unterminated end: it breaks
  off inside a multi-byte character, elsewhere inside the text of the record, or
  between the text of the record and its newline.  In the last case the end of the file
  is what a successful write would have completed as a line.  The disk gives the
  outcome of the call of \<^verbatim>\<open>save_posts\<close> with a given sequence number.
\<close>

datatype tear = Inside_character | Inside_text | Before_newline

datatype write_outcome = Written | Refused | Torn tear

type_synonym disk = "nat \<Rightarrow> write_outcome"

fun torn :: "tail \<Rightarrow> tear \<Rightarrow> post_record \<Rightarrow> tail" where
  "torn (Open Undecodable) where_torn r = Open Undecodable"
| "torn t Inside_character r = Open Undecodable"
| "torn t Inside_text r = Open Corrupt"
| "torn t Before_newline r = Open (glued t r)"

text \<open>
  The result is the exception raised, if any, and the new content of the file.  A
  torn write is taken to break off in the first record (the program only ever passes
  one).
\<close>

definition save_posts :: "write_outcome \<Rightarrow> post_record list \<Rightarrow> textfile \<Rightarrow> error option \<times> textfile" where
  "save_posts outcome posts f =
     (case outcome of
        Refused \<Rightarrow> (Some OS_error, f)
      | Torn where_torn \<Rightarrow>
          (Some OS_error,
           case posts of
             [] \<Rightarrow> f
           | p # ps \<Rightarrow> f\<lparr>last_part := torn (last_part f) where_torn p\<rparr>)
      | Written \<Rightarrow>
          (None,
           case posts of
             [] \<Rightarrow> f
           | p # ps \<Rightarrow>
               \<lparr>full_lines = full_lines f @ glued (last_part f) p # map Post ps,
                last_part = No_tail\<rparr>))"

section \<open>The crawler: \<^verbatim>\<open>collect_posts\<close>\<close>

subsection \<open>The source service\<close>

text \<open>
  The catalog endpoint returns a list of pages, each with a list \<^verbatim>\<open>threads\<close> of
  thread summaries, of which the crawler reads \<^verbatim>\<open>no\<close>; the thread endpoint returns
  a list \<^verbatim>\<open>posts\<close>, of which the crawler reads \<^verbatim>\<open>no\<close>, \<^verbatim>\<open>time\<close> and
  \<^verbatim>\<open>com\<close>.  Identifiers and times are taken to be integers.  A key that the crawler
  reads with \<^verbatim>\<open>x["key"]\<close> may be missing, which raises \<^verbatim>\<open>KeyError\<close>: \<open>None\<close>
  stands for that.  \<^verbatim>\<open>com\<close> is read with \<^verbatim>\<open>post.get("com", "")\<close> and may be
  missing, a string, or some other JSON value, of which only the truth value matters.
\<close>

datatype com = No_com | Com_text string | Com_other bool

record post =
  no :: "int option"
  time :: "int option"
  com :: com

type_synonym thread = "int option"

type_synonym page = "thread list option"

text \<open>
  \<^verbatim>\<open>fetch_catalog\<close> and \<^verbatim>\<open>fetch_thread\<close> perform a GET, call
  \<^verbatim>\<open>raise_for_status\<close> and decode the body.  What they return is decided by the
  network, not by the program: the source service is a pair of functions that give the
  outcome of the request with a given sequence number (the number of requests made
  before it), \<open>None\<close> when the call raises (time-out, connection error, error status,
  undecodable body).  For a thread, \<open>None\<close> also stands for a body without
  \<^verbatim>\<open>posts\<close>: the \<^verbatim>\<open>KeyError\<close> is raised in the same \<^verbatim>\<open>try\<close> block and caught by
  the same handler.
\<close>

record source =
  catalog_at :: "nat \<Rightarrow> page list option"
  thread_at :: "nat \<Rightarrow> int \<Rightarrow> post list option"

datatype request = Catalog_req | Thread_req int

text \<open>
  The state of a run: the two local variables \<^verbatim>\<open>seen_posts\<close> and
  \<^verbatim>\<open>collected\<close>, the content of \<^verbatim>\<open>RAW_FILE\<close>, and a trace of what the run did:
  the requests sent, the post numbers read from thread responses (in the order the
  post loop reads them), the number of calls of \<^verbatim>\<open>save_posts\<close> and the arguments of
  \<^verbatim>\<open>time.sleep\<close>.
\<close>

record crawl =
  seen_posts :: "int set"
  collected :: int
  raw_file :: textfile
  fetched :: "request list"
  delivered :: "int list"
  writes :: nat
  naps :: "nat list"

subsection \<open>The loops\<close>

text \<open>
  \<^verbatim>\<open>
  record = {"thread_id": tid, "post_id": pid, "timestamp": post["time"],
            "comment": clean_comment(post.get("com", "")), "metadata": {...}}
  \<close>
  \<^verbatim>\<open>post["time"]\<close> raises when the key is missing; \<^verbatim>\<open>clean_comment\<close> raises on a
  value that is neither a string nor falsy, which has no \<^verbatim>\<open>replace\<close>.
\<close>

definition comment_of :: "post \<Rightarrow> error + string" where
  "comment_of p =
     (case com p of
        No_com \<Rightarrow> Inr (clean_comment (Some []))
      | Com_text s \<Rightarrow> Inr (clean_comment (Some s))
      | Com_other truthy \<Rightarrow> if truthy then Inl Attribute_error else Inr (clean_comment None))"

definition make_record :: "int \<Rightarrow> int \<Rightarrow> post \<Rightarrow> error + post_record" where
  "make_record tid pid p =
     (case time p of
        None \<Rightarrow> Inl Key_error
      | Some t \<Rightarrow>
          (case comment_of p of
             Inl e \<Rightarrow> Inl e
           | Inr c \<Rightarrow> Inr \<lparr>thread_id = tid, post_id = pid, timestamp = t, comment = c\<rparr>))"

text \<open>
  The innermost loop, over the posts of one thread.  It has no handler of its own, so
  an exception leaves it; the post is then already in \<^verbatim>\<open>seen_posts\<close> and counted,
  unless it was \<^verbatim>\<open>post["no"]\<close> that raised.
  \<^verbatim>\<open>
  for post in thread_data["posts"]:
      pid = post["no"]
      if pid in seen_posts:
          continue
      seen_posts.add(pid)
      collected += 1
      record = {...}
      save_posts([record], RAW_FILE)
      if collected >= limit:
          break
  \<close>
\<close>

fun post_loop :: "disk \<Rightarrow> int \<Rightarrow> int \<Rightarrow> post list \<Rightarrow> crawl \<Rightarrow> error option \<times> crawl" where
  "post_loop dsk limit tid [] st = (None, st)"
| "post_loop dsk limit tid (p # ps) st =
     (case no p of
        None \<Rightarrow> (Some Key_error, st)
      | Some pid \<Rightarrow>
          let st1 = st\<lparr>delivered := delivered st @ [pid]\<rparr> in
          if pid \<in> seen_posts st1 then post_loop dsk limit tid ps st1
          else
            let st2 = st1\<lparr>seen_posts := insert pid (seen_posts st1),
                          collected := collected st1 + 1\<rparr> in
            case make_record tid pid p of
              Inl e \<Rightarrow> (Some e, st2)
            | Inr record \<Rightarrow>
                (case save_posts (dsk (writes st2)) [record] (raw_file st2) of
                   (result, f) \<Rightarrow>
                     let st3 = st2\<lparr>raw_file := f, writes := Suc (writes st2)\<rparr> in
                     case result of
                       Some e \<Rightarrow> (Some e, st3)
                     | None \<Rightarrow>
                         if collected st3 \<ge> limit then (None, st3)
                         else post_loop dsk limit tid ps st3))"

text \<open>
  The loop over the threads of one page.  The handler catches whatever is raised by the
  fetch, by the post loop, by building a record or by writing it; it sleeps 2 seconds,
  and the loop goes on with the next thread.  Without an exception the thread ends with
  a sleep of 1 second.  \<^verbatim>\<open>thread["no"]\<close> is read outside the \<^verbatim>\<open>try\<close>, so its
  exception leaves the loop.  The loop has no exit of its own:
  \<^verbatim>\<open>
  for thread in page["threads"]:
      tid = thread["no"]
      try:
          thread_data = fetch_thread(tid)
          for post in thread_data["posts"]: ...
          time.sleep(1)
      except Exception as e:
          time.sleep(2)
  \<close>
\<close>

fun thread_loop ::
  "source \<Rightarrow> disk \<Rightarrow> int \<Rightarrow> thread list \<Rightarrow> crawl \<Rightarrow> error option \<times> crawl" where
  "thread_loop src dsk limit [] st = (None, st)"
| "thread_loop src dsk limit (thread # threads) st =
     (case thread of
        None \<Rightarrow> (Some Key_error, st)
      | Some tid \<Rightarrow>
          let st1 = st\<lparr>fetched := fetched st @ [Thread_req tid]\<rparr> in
          case thread_at src (length (fetched st)) tid of
            None \<Rightarrow> thread_loop src dsk limit threads (st1\<lparr>naps := naps st1 @ [2]\<rparr>)
          | Some posts \<Rightarrow>
              (case post_loop dsk limit tid posts st1 of
                 (Some e, st2) \<Rightarrow>
                   thread_loop src dsk limit threads (st2\<lparr>naps := naps st2 @ [2]\<rparr>)
               | (None, st2) \<Rightarrow>
                   thread_loop src dsk limit threads (st2\<lparr>naps := naps st2 @ [1]\<rparr>)))"

text \<open>
  The loop over the pages of the catalog, left when the target is reached; an exception
  of \<^verbatim>\<open>page["threads"]\<close> or of the thread loop leaves it.
  \<^verbatim>\<open>
  for page in catalog:
      for thread in page["threads"]: ...
      if collected >= limit:
          break
  \<close>
\<close>

fun page_loop ::
  "source \<Rightarrow> disk \<Rightarrow> int \<Rightarrow> page list \<Rightarrow> crawl \<Rightarrow> error option \<times> crawl" where
  "page_loop src dsk limit [] st = (None, st)"
| "page_loop src dsk limit (pg # pgs) st =
     (case pg of
        None \<Rightarrow> (Some Key_error, st)
      | Some threads \<Rightarrow>
          (case thread_loop src dsk limit threads st of
             (Some e, st1) \<Rightarrow> (Some e, st1)
           | (None, st1) \<Rightarrow>
               if collected st1 \<ge> limit then (None, st1)
               else page_loop src dsk limit pgs st1))"

text \<open>
  One round of the outer loop: fetch the catalog and walk its pages; the outer handler
  catches a failed catalog fetch and whatever leaves the page loop, and sleeps 5
  seconds.
\<close>

definition collect_round :: "source \<Rightarrow> disk \<Rightarrow> int \<Rightarrow> crawl \<Rightarrow> crawl" where
  "collect_round src dsk limit st =
     (let st1 = st\<lparr>fetched := fetched st @ [Catalog_req]\<rparr> in
      case catalog_at src (length (fetched st)) of
        None \<Rightarrow> st1\<lparr>naps := naps st1 @ [5]\<rparr>
      | Some pages \<Rightarrow>
          (case page_loop src dsk limit pages st1 of
             (Some e, st2) \<Rightarrow> st2\<lparr>naps := naps st2 @ [5]\<rparr>
           | (None, st2) \<Rightarrow> st2))"

text \<open>
  \<^verbatim>\<open>while collected < limit:\<close> runs for as long as the target is not reached, which
  may be for ever (a source that always fails, or that has no new post).  The model
  bounds the number of rounds by a fuel argument and gives the state reached in any
  case, together with \<open>True\<close> when the loop has ended and \<open>False\<close> when the fuel has
  run out first.
\<close>

fun collect_while :: "nat \<Rightarrow> source \<Rightarrow> disk \<Rightarrow> int \<Rightarrow> crawl \<Rightarrow> bool \<times> crawl" where
  "collect_while 0 src dsk limit st = (\<not> collected st < limit, st)"
| "collect_while (Suc fuel) src dsk limit st =
     (if collected st < limit
      then collect_while fuel src dsk limit (collect_round src dsk limit st)
      else (True, st))"

text \<open>
  \<^verbatim>\<open>collect_posts(limit)\<close> starts with \<^verbatim>\<open>seen_posts = set()\<close> and
  \<^verbatim>\<open>collected = 0\<close>; \<open>raw\<close> is the content of \<^verbatim>\<open>RAW_FILE\<close> before the run.
\<close>

definition start :: "textfile \<Rightarrow> crawl" where
  "start raw = \<lparr>seen_posts = {}, collected = 0, raw_file = raw,
                fetched = [], delivered = [], writes = 0, naps = []\<rparr>"

definition collect_posts :: "nat \<Rightarrow> source \<Rightarrow> disk \<Rightarrow> int \<Rightarrow> textfile \<Rightarrow> bool \<times> crawl" where
  "collect_posts fuel src dsk limit raw = collect_while fuel src dsk limit (start raw)"

subsection \<open>Observations on a run\<close>

text \<open>The post numbers of the lines that are objects with a \<^verbatim>\<open>post_id\<close>.\<close>

fun line_ids :: "line list \<Rightarrow> int list" where
  "line_ids [] = []"
| "line_ids (Object e # ls) =
     (case e_post_id e of None \<Rightarrow> line_ids ls | Some pid \<Rightarrow> pid # line_ids ls)"
| "line_ids (l # ls) = line_ids ls"

text \<open>
  The lines that a run has completed: those that follow the lines which the raw file
  held, complete, before the run.
\<close>

definition appended :: "textfile \<Rightarrow> crawl \<Rightarrow> line list" where
  "appended raw st = drop (length (full_lines raw)) (full_lines (raw_file st))"

text \<open>The distinct elements of a list, in the order of their first occurrence.\<close>

definition first_seen :: "'a list \<Rightarrow> 'a list" where
  "first_seen xs = rev (remdups (rev xs))"

text \<open>The state of a run without the content of the file.\<close>

definition without_file :: "crawl \<Rightarrow> crawl" where
  "without_file st = st\<lparr>raw_file := empty_file\<rparr>"

text \<open>
  The invariant of a run: the seen-set holds exactly the post numbers read so far; the
  complete lines that the file held are still there; and the lines completed since
  carry post numbers that were read, none of them twice, in the order of their first
  reading.
\<close>

definition tracked :: "textfile \<Rightarrow> crawl \<Rightarrow> bool" where
  "tracked raw st =
     (seen_posts st = set (delivered st) \<and>
      take (length (full_lines raw)) (full_lines (raw_file st)) = full_lines raw \<and>
      length (full_lines raw) \<le> length (full_lines (raw_file st)) \<and>
      distinct (line_ids (appended raw st)) \<and>
      subseq (line_ids (appended raw st)) (first_seen (delivered st)))"


section \<open>The classifiers\<close>

subsection \<open>The network and the state of an analysis run\<close>

text \<open>
  Both classifiers are reached by \<^verbatim>\<open>requests.post\<close>.  A call either raises (no
  connection, time-out, ...) or returns a response with a status code and a body.  The
  verdict is the part of the body that the program extracts (\<^verbatim>\<open>resp.json()["results"][0]\<close>
  for the first classifier, \<^verbatim>\<open>resp.json()\<close> for the second); it is kept as an opaque
  text, and it is \<open>None\<close> when the extraction raises because the body is not what is
  expected.
\<close>

type_synonym verdict = string

datatype reply = Raised | Response int "verdict option"

datatype call = OpenAI_call string | Perspective_call string

text \<open>
  The network gives the reply to the POST with a given sequence number, and the value
  of the \<open>k\<close>-th call of \<^verbatim>\<open>random.uniform(0, 1)\<close>.  Floating-point numbers are
  idealised as reals.
\<close>

record network =
  reply_at :: "nat \<Rightarrow> reply"
  uniform_at :: "nat \<Rightarrow> real"

text \<open>
  An Analysis Result Record (\<^verbatim>\<open>analyzed_at\<close>, the wall-clock time, is left out).
\<close>

record result =
  r_post_id :: int
  r_thread_id :: int
  r_timestamp :: int
  r_text :: string
  openai :: "verdict option"
  perspective :: "verdict option"

text \<open>
  The state of an analysis run: the calls posted so far, the arguments of
  \<^verbatim>\<open>time.sleep\<close>, the number of random draws made, and the content of
  \<^verbatim>\<open>RESULT_FILE\<close>.
\<close>

record io =
  posted :: "call list"
  sleeps :: "real list"
  draws :: nat
  results_file :: "result list"

subsection \<open>\<^verbatim>\<open>analyze_openai\<close>\<close>

text \<open>
  \<^verbatim>\<open>
  for attempt in range(max_retries):
      resp = requests.post(url, headers=headers, json=payload)
      if resp.status_code == 200:
          return resp.json()["results"][0]
      elif resp.status_code == 429:
          wait_time = (2 ** attempt) + random.uniform(0, 1)
          time.sleep(wait_time)
      else:
          return None
  return None
  \<close>
  There is no \<^verbatim>\<open>try\<close> in this function: an exception of \<^verbatim>\<open>requests.post\<close> or of
  the extraction of the verdict leaves it.  The result is \<open>Inl\<close> of the exception or
  \<open>Inr\<close> of the returned value, \<open>None\<close> for Python's \<^verbatim>\<open>None\<close>.
\<close>

fun openai_attempts ::
  "network \<Rightarrow> string \<Rightarrow> nat list \<Rightarrow> io \<Rightarrow> (error + verdict option) \<times> io" where
  "openai_attempts net text [] st = (Inr None, st)"
| "openai_attempts net text (attempt # rest) st =
     (let st1 = st\<lparr>posted := posted st @ [OpenAI_call text]\<rparr> in
      case reply_at net (length (posted st)) of
        Raised \<Rightarrow> (Inl Request_exception, st1)
      | Response code body \<Rightarrow>
          if code = 200 then
            (case body of
               None \<Rightarrow> (Inl Body_error, st1)
             | Some v \<Rightarrow> (Inr (Some v), st1))
          else if code = 429 then
            openai_attempts net text rest
              (st1\<lparr>sleeps := sleeps st1 @ [2 ^ attempt + uniform_at net (draws st1)],
                    draws := Suc (draws st1)\<rparr>)
          else (Inr None, st1))"

definition analyze_openai ::
  "network \<Rightarrow> string \<Rightarrow> int \<Rightarrow> io \<Rightarrow> (error + verdict option) \<times> io" where
  "analyze_openai net text max_retries st =
     openai_attempts net text [0..<nat max_retries] st"

subsection \<open>\<^verbatim>\<open>analyze_perspective\<close>\<close>

text \<open>
  \<^verbatim>\<open>
  try:
      resp = requests.post(url, json=data)
      if resp.status_code == 200:
          return resp.json()
      else:
          return None
  except Exception as e:
      return None
  \<close>
  Every exception is caught, so the function always returns.
\<close>

definition analyze_perspective :: "network \<Rightarrow> string \<Rightarrow> io \<Rightarrow> verdict option \<times> io" where
  "analyze_perspective net text st =
     (let st1 = st\<lparr>posted := posted st @ [Perspective_call text]\<rparr> in
      case reply_at net (length (posted st)) of
        Raised \<Rightarrow> (None, st1)
      | Response code body \<Rightarrow> if code = 200 then (body, st1) else (None, st1))"

section \<open>The annotation pipeline: \<^verbatim>\<open>analyze_posts_batched\<close>\<close>

subsection \<open>Reading the raw file\<close>

text \<open>
  \<^verbatim>\<open>json.loads(line)\<close> raises on text that is not valid JSON and returns the decoded
  value otherwise, of which the program uses the entries of an object.  (Undecodable
  lines never reach \<^verbatim>\<open>json.loads\<close>: reading them raises.)
\<close>

datatype decoded = Other_json | Dict entry

definition json_loads :: "line \<Rightarrow> error + decoded" where
  "json_loads l =
     (case l of
        Undecodable \<Rightarrow> Inl Unicode_decode_error
      | Corrupt \<Rightarrow> Inl Json_decode_error
      | Not_record \<Rightarrow> Inr Other_json
      | Object e \<Rightarrow> Inr (Dict e))"

text \<open>
  \<^verbatim>\<open>post.get("comment", "")\<close> is the comment of an object, or the empty string when
  the key is missing.
\<close>

definition comment_text :: "entry \<Rightarrow> string" where
  "comment_text e = (case e_comment e of None \<Rightarrow> [] | Some s \<Rightarrow> s)"

text \<open>
  A post in memory is the decoded object together with the entry \<^verbatim>\<open>post["text"]\<close>
  that the reading loop adds.  \<^verbatim>\<open>post.get("comment", "").strip()\<close> raises
  \<^verbatim>\<open>AttributeError\<close> when the value is not an object or its comment is not a string.
\<close>

type_synonym text_post = "entry \<times> string"

definition with_text :: "decoded \<Rightarrow> error + text_post" where
  "with_text d =
     (case d of
        Other_json \<Rightarrow> Inl Attribute_error
      | Dict e \<Rightarrow> Inr (e, strip (comment_text e)))"

text \<open>
  \<^verbatim>\<open>
  posts = []
  for i, line in enumerate(f):
      if i >= limit:
          break
      post = json.loads(line)
      text = post.get("comment", "").strip()
      if not text:
          continue
      post["text"] = text
      posts.append(post)
  \<close>
  The file object decodes the bytes of the file block by block, ahead of the line that
  it delivers, and raises \<^verbatim>\<open>UnicodeDecodeError\<close> when a block is not valid UTF-8.
  How far ahead is not decided by the program: \<open>reach i\<close> is the number of the last
  line that has been decoded when line \<open>i\<close> is delivered (line \<open>i\<close> itself if
  \<open>reach i\<close> is smaller).  The line is delivered before the loop body compares
  \<open>i\<close> with the limit.
\<close>

fun read_loop ::
  "(nat \<Rightarrow> nat) \<Rightarrow> int \<Rightarrow> nat \<Rightarrow> line list \<Rightarrow> text_post list \<Rightarrow> error + text_post list" where
  "read_loop reach limit i [] posts = Inr posts"
| "read_loop reach limit i (l # ls) posts =
     (if Undecodable \<in> set (take (Suc (reach i - i)) (l # ls)) then Inl Unicode_decode_error
      else if int i \<ge> limit then Inr posts
      else case json_loads l of
        Inl e \<Rightarrow> Inl e
      | Inr d \<Rightarrow>
          (case with_text d of
             Inl e \<Rightarrow> Inl e
           | Inr p \<Rightarrow>
               if snd p = [] then read_loop reach limit (Suc i) ls posts
               else read_loop reach limit (Suc i) ls (posts @ [p])))"

subsection \<open>Batches\<close>

text \<open>
  \<^verbatim>\<open>range(lo, hi, step)\<close> raises \<^verbatim>\<open>ValueError\<close> for a zero step and is empty when
  the step points away from \<open>hi\<close>.
\<close>

definition py_range :: "int \<Rightarrow> int \<Rightarrow> int \<Rightarrow> error + int list" where
  "py_range lo hi step =
     (if step = 0 then Inl Value_error
      else if step > 0
        then Inr (map (\<lambda>k. lo + int k * step) [0..<nat ((hi - lo + step - 1) div step)])
      else Inr (map (\<lambda>k. lo + int k * step) [0..<nat ((lo - hi - step - 1) div (- step))]))"

text \<open>
  \<^verbatim>\<open>xs[a:b]\<close> for \<open>0 \<le> a \<le> b\<close>, the only case that the batch loop reaches.
\<close>

definition slice :: "'a list \<Rightarrow> int \<Rightarrow> int \<Rightarrow> 'a list" where
  "slice xs a b = take (nat (b - a)) (drop (nat a) xs)"

text \<open>
  \<^verbatim>\<open>
  for start in range(0, len(posts), batch_size):
      batch_posts = posts[start:start+batch_size]
  \<close>
\<close>

definition batches :: "int \<Rightarrow> text_post list \<Rightarrow> error + text_post list list" where
  "batches batch_size posts =
     (case py_range 0 (int (length posts)) batch_size of
        Inl e \<Rightarrow> Inl e
      | Inr starts \<Rightarrow> Inr (map (\<lambda>start. slice posts start (start + batch_size)) starts))"

subsection \<open>Analysing the posts\<close>

text \<open>
  The body of the loop over the posts of a batch.  Nothing here catches an exception, so
  one that leaves \<^verbatim>\<open>analyze_openai\<close> ends the whole run, and so does the
  \<^verbatim>\<open>KeyError\<close> of a post without \<^verbatim>\<open>post_id\<close>, \<^verbatim>\<open>thread_id\<close> or
  \<^verbatim>\<open>timestamp\<close>, which is raised after both classifiers have been called.
  \<^verbatim>\<open>
  oa_result = analyze_openai(post["text"])
  persp_result = analyze_perspective(post["text"])
  result = {"post_id": post["post_id"], "thread_id": post["thread_id"],
            "timestamp": post["timestamp"], "text": post["text"],
            "openai": oa_result, "perspective": persp_result, "analyzed_at": ...}
  out.write(json.dumps(result, ensure_ascii=False) + "\n")
  time.sleep(1)
  \<close>
\<close>

definition make_result :: "text_post \<Rightarrow> verdict option \<Rightarrow> verdict option \<Rightarrow> error + result" where
  "make_result p oa_result persp_result =
     (case e_post_id (fst p) of
        None \<Rightarrow> Inl Key_error
      | Some pid \<Rightarrow>
          (case e_thread_id (fst p) of
             None \<Rightarrow> Inl Key_error
           | Some tid \<Rightarrow>
               (case e_timestamp (fst p) of
                  None \<Rightarrow> Inl Key_error
                | Some ts \<Rightarrow>
                    Inr \<lparr>r_post_id = pid, r_thread_id = tid, r_timestamp = ts, r_text = snd p,
                         openai = oa_result, perspective = persp_result\<rparr>)))"

definition analyze_one :: "network \<Rightarrow> text_post \<Rightarrow> io \<Rightarrow> error option \<times> io" where
  "analyze_one net p st =
     (case analyze_openai net (snd p) 5 st of
        (Inl e, st1) \<Rightarrow> (Some e, st1)
      | (Inr oa_result, st1) \<Rightarrow>
          (case analyze_perspective net (snd p) st1 of
             (persp_result, st2) \<Rightarrow>
               (case make_result p oa_result persp_result of
                  Inl e \<Rightarrow> (Some e, st2)
                | Inr result \<Rightarrow>
                    (None, st2\<lparr>results_file := results_file st2 @ [result],
                               sleeps := sleeps st2 @ [1]\<rparr>))))"

fun post_batch :: "network \<Rightarrow> text_post list \<Rightarrow> io \<Rightarrow> error option \<times> io" where
  "post_batch net [] st = (None, st)"
| "post_batch net (p # ps) st =
     (case analyze_one net p st of
        (Some e, st1) \<Rightarrow> (Some e, st1)
      | (None, st1) \<Rightarrow> post_batch net ps st1)"

text \<open>The loop over the batches, with a sleep of 5 seconds after each batch.\<close>

fun batch_loop :: "network \<Rightarrow> text_post list list \<Rightarrow> io \<Rightarrow> error option \<times> io" where
  "batch_loop net [] st = (None, st)"
| "batch_loop net (b # bs) st =
     (case post_batch net b st of
        (Some e, st1) \<Rightarrow> (Some e, st1)
      | (None, st1) \<Rightarrow> batch_loop net bs (st1\<lparr>sleeps := sleeps st1 @ [5]\<rparr>))"

text \<open>
  The whole function.  \<open>input_file\<close> is the list of the lines of the raw file (see
  \<open>file_lines\<close>); the result file is opened for appending and is part of the state,
  as the list of the records written in the run and before it (both files are taken
  to open, and the writes to the result file to succeed).  \<open>None\<close> in the first
  component says that the function returned, \<open>Some e\<close> that it raised \<open>e\<close>.
\<close>

definition analyze_posts_batched ::
  "network \<Rightarrow> (nat \<Rightarrow> nat) \<Rightarrow> line list \<Rightarrow> int \<Rightarrow> int \<Rightarrow> io \<Rightarrow> error option \<times> io" where
  "analyze_posts_batched net reach input_file limit batch_size st =
     (case read_loop reach limit 0 input_file [] of
        Inl e \<Rightarrow> (Some e, st)
      | Inr posts \<Rightarrow>
          (case batches batch_size posts of
             Inl e \<Rightarrow> (Some e, st)
           | Inr bs \<Rightarrow> batch_loop net bs st))"

text \<open>Observations on a run.\<close>

definition call_text :: "call \<Rightarrow> string" where
  "call_text c = (case c of OpenAI_call t \<Rightarrow> t | Perspective_call t \<Rightarrow> t)"

definition new_calls :: "io \<Rightarrow> io \<Rightarrow> call list" where
  "new_calls st st' = drop (length (posted st)) (posted st')"

definition new_results :: "io \<Rightarrow> io \<Rightarrow> result list" where
  "new_results st st' = drop (length (results_file st)) (results_file st')"

definition new_sleeps :: "io \<Rightarrow> io \<Rightarrow> real list" where
  "new_sleeps st st' = drop (length (sleeps st)) (sleeps st')"

text \<open>
  The posts that a run is to analyse, in the words of the specification: the objects
  among the first \<open>limit\<close> lines whose stripped comment is not empty, in file order.
\<close>

fun objects :: "line list \<Rightarrow> entry list" where
  "objects [] = []"
| "objects (Object e # ls) = e # objects ls"
| "objects (l # ls) = objects ls"

definition retained :: "int \<Rightarrow> line list \<Rightarrow> text_post list" where
  "retained limit input_file =
     map (\<lambda>e. (e, strip (comment_text e)))
       (filter (\<lambda>e. strip (comment_text e) \<noteq> []) (objects (take (nat limit) input_file)))"

text \<open>
  A line that makes the reading loop raise: it is not valid UTF-8, not valid JSON, or
  JSON without a comment that can be stripped.
\<close>

definition unreadable :: "line \<Rightarrow> bool" where
  "unreadable l = (case l of Object e \<Rightarrow> False | _ \<Rightarrow> True)"

text \<open>The line-by-line file object, which decodes no line before it delivers it.\<close>

definition line_by_line :: "nat \<Rightarrow> nat" where
  "line_by_line i = i"

text \<open>
  What a result record takes from its post, and the same four values of a post in
  memory.
\<close>

definition result_key :: "result \<Rightarrow> int option \<times> int option \<times> int option \<times> string" where
  "result_key r = (Some (r_post_id r), Some (r_thread_id r), Some (r_timestamp r), r_text r)"

definition post_key :: "text_post \<Rightarrow> int option \<times> int option \<times> int option \<times> string" where
  "post_key p = (e_post_id (fst p), e_thread_id (fst p), e_timestamp (fst p), snd p)"

text \<open>
  What a stretch of an analysis run does to the state, for the posts \<open>ps\<close> that it
  goes through and its outcome \<open>e\<close>: it only adds calls, all of them with the text of
  one of the posts, and it only adds results, one for each post of an initial part of
  \<open>ps\<close> in order, and one for each post of \<open>ps\<close> when no exception ends it.
\<close>

definition grows :: "text_post list \<Rightarrow> error option \<Rightarrow> io \<Rightarrow> io \<Rightarrow> bool" where
  "grows ps e st st' =
     (\<exists>cs rs. posted st' = posted st @ cs \<and> results_file st' = results_file st @ rs
        \<and> call_text ` set cs \<subseteq> snd ` set ps
        \<and> prefix (map result_key rs) (map post_key ps)
        \<and> (e = None \<longrightarrow> map result_key rs = map post_key ps))"

text \<open>The \<open>k\<close>-th run of \<open>m\<close> consecutive elements of a list.\<close>

definition chunk :: "nat \<Rightarrow> 'a list \<Rightarrow> nat \<Rightarrow> 'a list" where
  "chunk m xs k = take m (drop (k * m) xs)"

section \<open>Example runs\<close>

text \<open>
  A disk that accepts every write, and one that refuses every write (as when the
  directory of the raw file does not exist).
\<close>

definition steady :: disk where
  "steady = (\<lambda>k. Written)"

definition no_directory :: disk where
  "no_directory = (\<lambda>k. Refused)"

text \<open>A post with its number, a time and no comment.\<close>

definition plain :: "int \<Rightarrow> post" where
  "plain n = \<lparr>no = Some n, time = Some 0, com = No_com\<rparr>"

text \<open>
  The end-to-end example of the specification: a catalog of one page with two threads,
  the first with three posts, the second with two, and a target of three posts.
\<close>

definition two_threads :: source where
  "two_threads =
     \<lparr>catalog_at = (\<lambda>n. Some [Some [Some 1, Some 2]]),
      thread_at = (\<lambda>n tid.
        if tid = 1 then Some [plain 11, plain 12, plain 13]
        else if tid = 2 then Some [plain 21, plain 22]
        else None)\<rparr>"

definition two_threads_final :: crawl where
  "two_threads_final =
     \<lparr>seen_posts = {21, 13, 12, 11}, collected = 4,
      raw_file =
        \<lparr>full_lines =
           [Post \<lparr>thread_id = 1, post_id = 11, timestamp = 0, comment = []\<rparr>,
            Post \<lparr>thread_id = 1, post_id = 12, timestamp = 0, comment = []\<rparr>,
            Post \<lparr>thread_id = 1, post_id = 13, timestamp = 0, comment = []\<rparr>,
            Post \<lparr>thread_id = 2, post_id = 21, timestamp = 0, comment = []\<rparr>],
         last_part = No_tail\<rparr>,
      fetched = [Catalog_req, Thread_req 1, Thread_req 2],
      delivered = [11, 12, 13, 21], writes = 4, naps = [1, 1]\<rparr>"




text \<open>
  A restart: the raw file already holds post 11, and the source delivers post 11 again.
\<close>

definition one_post :: source where
  "one_post =
     \<lparr>catalog_at = (\<lambda>n. Some [Some [Some 1]]),
      thread_at = (\<lambda>n tid. Some [\<lparr>no = Some 11, time = Some 7, com = Com_text ''x''\<rparr>])\<rparr>"

definition persisted :: textfile where
  "persisted =
     \<lparr>full_lines = [Post \<lparr>thread_id = 1, post_id = 11, timestamp = 7, comment = ''x''\<rparr>],
      last_part = No_tail\<rparr>"

definition one_post_final :: crawl where
  "one_post_final =
     \<lparr>seen_posts = {11}, collected = 1,
      raw_file =
        \<lparr>full_lines =
           [Post \<lparr>thread_id = 1, post_id = 11, timestamp = 7, comment = ''x''\<rparr>,
            Post \<lparr>thread_id = 1, post_id = 11, timestamp = 7, comment = ''x''\<rparr>],
         last_part = No_tail\<rparr>,
      fetched = [Catalog_req, Thread_req 1],
      delivered = [11], writes = 1, naps = [1]\<rparr>"

text \<open>A raw file that consists of a line cut short, without its newline.\<close>

definition cut_short :: textfile where
  "cut_short = \<lparr>full_lines = [], last_part = Open Corrupt\<rparr>"

text \<open>
  Analysis runs start with nothing posted and an empty result file.  The network
  \<open>throttled k\<close> answers the first \<open>k\<close> calls with status 429 and every later call
  with status 200; \<open>offline\<close> lets every call raise; with \<open>a_down\<close> the first call
  gets status 500 and the later ones status 200; with \<open>b_down\<close> the first call gets
  status 200 and the later ones raise.
\<close>

definition idle :: io where
  "idle = \<lparr>posted = [], sleeps = [], draws = 0, results_file = []\<rparr>"

definition throttled :: "nat \<Rightarrow> network" where
  "throttled k =
     \<lparr>reply_at = (\<lambda>n. if n < k then Response 429 None else Response 200 (Some ''ok'')),
      uniform_at = (\<lambda>n. 1 / 2)\<rparr>"

definition offline :: network where
  "offline = \<lparr>reply_at = (\<lambda>n. Raised), uniform_at = (\<lambda>n. 0)\<rparr>"

definition a_down :: network where
  "a_down =
     \<lparr>reply_at = (\<lambda>n. if n = 0 then Response 500 None else Response 200 (Some ''toxic'')),
      uniform_at = (\<lambda>n. 0)\<rparr>"

definition b_down :: network where
  "b_down =
     \<lparr>reply_at = (\<lambda>n. if n = 0 then Response 200 (Some ''flagged'') else Raised),
      uniform_at = (\<lambda>n. 0)\<rparr>"

text \<open>
  Raw files: one whose first line has a blank comment and whose last line is corrupt,
  one of four records of which the first has a blank comment, and one with a corrupt
  second line.
\<close>

definition sample_file :: "line list" where
  "sample_file =
     [Post \<lparr>thread_id = 1, post_id = 11, timestamp = 0, comment = ''  ''\<rparr>,
      Post \<lparr>thread_id = 1, post_id = 12, timestamp = 0, comment = '' b ''\<rparr>,
      Post \<lparr>thread_id = 1, post_id = 13, timestamp = 0, comment = ''c''\<rparr>,
      Post \<lparr>thread_id = 1, post_id = 14, timestamp = 0, comment = ''d''\<rparr>,
      Corrupt]"

definition sample_final :: io where
  "sample_final =
  \<lparr>posted =
     [OpenAI_call ''b'', Perspective_call ''b'', OpenAI_call ''c'',
      Perspective_call ''c''],
     sleeps = [1, 5, 1, 5], draws = 0,
     results_file =
       [\<lparr>r_post_id = 12, r_thread_id = 1, r_timestamp = 0, r_text = ''b'',
           openai = Some ''ok'', perspective = Some ''ok''\<rparr>,
        \<lparr>r_post_id = 13, r_thread_id = 1, r_timestamp = 0, r_text = ''c'',
           openai = Some ''ok'', perspective = Some ''ok''\<rparr>]\<rparr>"

definition padded_file :: "line list" where
  "padded_file =
     [Post \<lparr>thread_id = 1, post_id = 11, timestamp = 0, comment = ''  ''\<rparr>,
      Post \<lparr>thread_id = 1, post_id = 12, timestamp = 0, comment = '' b ''\<rparr>,
      Post \<lparr>thread_id = 1, post_id = 13, timestamp = 0, comment = ''c''\<rparr>,
      Post \<lparr>thread_id = 1, post_id = 14, timestamp = 0, comment = ''d''\<rparr>]"

definition padded_final :: io where
  "padded_final =
     \<lparr>posted = [OpenAI_call ''b'', Perspective_call ''b''],
      sleeps = [1, 5], draws = 0,
      results_file =
        [\<lparr>r_post_id = 12, r_thread_id = 1, r_timestamp = 0, r_text = ''b'',
          openai = Some ''ok'', perspective = Some ''ok''\<rparr>]\<rparr>"

definition broken_file :: "line list" where
  "broken_file =
     [Post \<lparr>thread_id = 1, post_id = 12, timestamp = 0, comment = '' b ''\<rparr>,
      Corrupt,
      Post \<lparr>thread_id = 1, post_id = 13, timestamp = 0, comment = ''c''\<rparr>]"

definition post_b :: text_post where
  "post_b =
     (entry_of \<lparr>thread_id = 1, post_id = 12, timestamp = 0, comment = '' b ''\<rparr>, ''b'')"



definition bytes_file :: "line list" where
  "bytes_file =
     [Post \<lparr>thread_id = 1, post_id = 12, timestamp = 0, comment = '' b ''\<rparr>,
      Post \<lparr>thread_id = 1, post_id = 13, timestamp = 0, comment = ''c''\<rparr>,
      Undecodable]"

section \<open>Properties of the text normaliser\<close>









section \<open>Properties of the crawler\<close>

subsection \<open>Deduplication within a run\<close>

lemma first_seen_snoc: "first_seen (xs @ [x]) = (if x \<in> set xs then first_seen xs else first_seen xs @ [x])"
  by (simp add: first_seen_def)


lemma set_first_seen: "set (first_seen xs) = set xs"
  by (simp add: first_seen_def)

lemma line_ids_append: "line_ids (xs @ ys) = line_ids xs @ line_ids ys"
  by (induction xs rule: line_ids.induct) (auto split: option.splits)

lemma line_ids_Post: "line_ids [Post r] = [post_id r]"
  by (simp add: entry_of_def)

lemma line_ids_glued: "line_ids [glued t r] = [] \<or> line_ids [glued t r] = [post_id r]"
  by (cases "(t, r)" rule: glued.cases) (simp_all add: entry_of_def)

lemma save_posts_lines:
  assumes "save_posts outcome [r] f = (res, f')"
  shows "\<exists>ls. full_lines f' = full_lines f @ ls \<and> (line_ids ls = [] \<or> line_ids ls = [post_id r])"
proof (cases outcome)
  case Written
  with assms have "full_lines f' = full_lines f @ [glued (last_part f) r]"
    by (auto simp: save_posts_def)
  with line_ids_glued [of "last_part f" r] show ?thesis by blast
next
  case Refused
  with assms have "full_lines f' = full_lines f @ []" by (auto simp: save_posts_def)
  then show ?thesis by (intro exI [of _ "[]"]) simp
next
  case (Torn where_torn)
  with assms have "full_lines f' = full_lines f @ []" by (auto simp: save_posts_def)
  then show ?thesis by (intro exI [of _ "[]"]) simp
qed

lemma tracked_frame:
  "tracked raw (st\<lparr>naps := n\<rparr>) = tracked raw st"
  "tracked raw (st\<lparr>fetched := f\<rparr>) = tracked raw st"
  "tracked raw (st\<lparr>writes := w\<rparr>) = tracked raw st"
  "tracked raw (st\<lparr>collected := c\<rparr>) = tracked raw st"
  by (simp_all add: tracked_def appended_def)

lemma tracked_seen:
  assumes "tracked raw st" and "pid \<in> seen_posts st"
  shows "tracked raw (st\<lparr>delivered := delivered st @ [pid]\<rparr>)"
  using assms by (auto simp: tracked_def appended_def first_seen_snoc)

lemma tracked_new:
  assumes "tracked raw st" and "pid \<notin> seen_posts st"
    and "full_lines f = full_lines (raw_file st) @ ls"
    and "line_ids ls = [] \<or> line_ids ls = [pid]"
  shows "tracked raw (st\<lparr>delivered := delivered st @ [pid],
                         seen_posts := insert pid (seen_posts st), collected := c,
                         raw_file := f, writes := w\<rparr>)"
proof -
  let ?n = "length (full_lines raw)"
  let ?old = "line_ids (appended raw st)"
  from assms(1) have seen: "seen_posts st = set (delivered st)"
    and keep: "take ?n (full_lines (raw_file st)) = full_lines raw"
    and len: "?n \<le> length (full_lines (raw_file st))"
    and dist: "distinct ?old" and sub: "subseq ?old (first_seen (delivered st))"
    by (simp_all add: tracked_def)
  from assms(2) seen have fresh: "pid \<notin> set (delivered st)" by simp
  have app: "drop ?n (full_lines f) = appended raw st @ ls"
    using assms(3) len by (simp add: appended_def)
  have notin: "pid \<notin> set ?old"
  proof
    assume "pid \<in> set ?old"
    with sub obtain y where "y \<in> set (first_seen (delivered st))" "pid = y"
      by (rule list_emb_set)
    with fresh show False by (simp add: set_first_seen)
  qed
  have d: "distinct (?old @ line_ids ls)"
    using assms(4) dist notin by auto
  have s: "subseq (?old @ line_ids ls) (first_seen (delivered st) @ [pid])"
    using assms(4) sub by (auto intro: subseq_rev_drop_many list_emb_append_mono)
  show ?thesis
    using seen keep len fresh d s assms(3) app
    by (simp add: tracked_def appended_def first_seen_snoc line_ids_append)
qed

lemma tracked_post_loop:
  "tracked raw st \<Longrightarrow> post_loop dsk limit tid ps st = (e, st') \<Longrightarrow> tracked raw st'"
proof (induction ps arbitrary: st)
  case Nil
  then show ?case by simp
next
  case (Cons p ps)
  show ?case
  proof (cases "no p")
    case None
    with Cons.prems show ?thesis by simp
  next
    case (Some pid)
    let ?st1 = "st\<lparr>delivered := delivered st @ [pid]\<rparr>"
    show ?thesis
    proof (cases "pid \<in> seen_posts st")
      case True
      with Cons.prems(1) have "tracked raw ?st1" by (rule tracked_seen)
      moreover from Cons.prems(2) Some True have "post_loop dsk limit tid ps ?st1 = (e, st')"
        by (simp add: Let_def)
      ultimately show ?thesis by (rule Cons.IH)
    next
      case False
      let ?st2 = "?st1\<lparr>seen_posts := insert pid (seen_posts ?st1),
                         collected := collected ?st1 + 1\<rparr>"
      have t2: "tracked raw ?st2"
        using tracked_new [OF Cons.prems(1) False, where f = "raw_file st" and ls = "[]"
            and c = "collected st + 1" and w = "writes st"]
        by simp
      show ?thesis
      proof (cases "make_record tid pid p")
        case (Inl err)
        with Cons.prems(2) Some False have "st' = ?st2" by (simp add: Let_def)
        with t2 show ?thesis by simp
      next
        case (Inr r)
        then have rid: "post_id r = pid"
          by (auto simp: make_record_def split: option.splits sum.splits)
        obtain res f where sv: "save_posts (dsk (writes st)) [r] (raw_file st) = (res, f)"
          by (cases "save_posts (dsk (writes st)) [r] (raw_file st)")
        let ?st3 = "?st2\<lparr>raw_file := f, writes := Suc (writes ?st2)\<rparr>"
        from save_posts_lines [OF sv] rid obtain ls where
          ls: "full_lines f = full_lines (raw_file st) @ ls" "line_ids ls = [] \<or> line_ids ls = [pid]"
          by auto
        have t3: "tracked raw ?st3"
          using tracked_new [OF Cons.prems(1) False ls, where c = "collected st + 1"
              and w = "Suc (writes st)"]
          by simp
        show ?thesis
        proof (cases "res = None \<and> \<not> collected ?st3 \<ge> limit")
          case True
          with Cons.prems(2) Some False Inr sv have "post_loop dsk limit tid ps ?st3 = (e, st')"
            by (simp add: Let_def)
          with t3 show ?thesis by (rule Cons.IH)
        next
          case False
          with Cons.prems(2) Some \<open>pid \<notin> seen_posts st\<close> Inr sv have "st' = ?st3"
            by (auto simp: Let_def split: option.splits)
          with t3 show ?thesis by simp
        qed
      qed
    qed
  qed
qed

lemma tracked_thread_loop:
  "tracked raw st \<Longrightarrow> thread_loop src dsk limit ts st = (e, st') \<Longrightarrow> tracked raw st'"
proof (induction ts arbitrary: st)
  case Nil
  then show ?case by simp
next
  case (Cons t ts)
  show ?case
  proof (cases t)
    case None
    with Cons.prems show ?thesis by simp
  next
    case (Some tid)
    let ?st1 = "st\<lparr>fetched := fetched st @ [Thread_req tid]\<rparr>"
    have t1: "tracked raw ?st1" using Cons.prems(1) by (simp add: tracked_frame)
    show ?thesis
    proof (cases "thread_at src (length (fetched st)) tid")
      case None
      with Cons.prems(2) Some
      have "thread_loop src dsk limit ts (?st1\<lparr>naps := naps ?st1 @ [2]\<rparr>) = (e, st')"
        by (simp add: Let_def)
      moreover have "tracked raw (?st1\<lparr>naps := naps ?st1 @ [2]\<rparr>)"
        using t1 by (simp add: tracked_frame)
      ultimately show ?thesis by (rule Cons.IH [rotated])
    next
      case (Some posts)
      obtain e2 st2 where pl: "post_loop dsk limit tid posts ?st1 = (e2, st2)"
        by (cases "post_loop dsk limit tid posts ?st1")
      from tracked_post_loop [OF t1 pl] have t2: "tracked raw st2" .
      obtain nap where "thread_loop src dsk limit ts (st2\<lparr>naps := naps st2 @ [nap]\<rparr>) = (e, st')"
        using Cons.prems(2) \<open>t = Some tid\<close> Some pl
        by (cases e2) (auto simp: Let_def)
      moreover have "tracked raw (st2\<lparr>naps := naps st2 @ [nap]\<rparr>)"
        using t2 by (simp add: tracked_frame)
      ultimately show ?thesis by (rule Cons.IH [rotated])
    qed
  qed
qed

lemma tracked_page_loop:
  "tracked raw st \<Longrightarrow> page_loop src dsk limit pgs st = (e, st') \<Longrightarrow> tracked raw st'"
proof (induction pgs arbitrary: st)
  case Nil
  then show ?case by simp
next
  case (Cons pg pgs)
  show ?case
  proof (cases pg)
    case None
    with Cons.prems show ?thesis by simp
  next
    case (Some ts)
    obtain e1 st1 where tl: "thread_loop src dsk limit ts st = (e1, st1)"
      by (cases "thread_loop src dsk limit ts st")
    from tracked_thread_loop [OF Cons.prems(1) tl] have t1: "tracked raw st1" .
    show ?thesis
    proof (cases "e1 = None \<and> \<not> collected st1 \<ge> limit")
      case True
      with Cons.prems(2) Some tl have "page_loop src dsk limit pgs st1 = (e, st')" by simp
      with t1 show ?thesis by (rule Cons.IH)
    next
      case False
      with Cons.prems(2) Some tl have "st' = st1" by (auto split: option.splits)
      with t1 show ?thesis by simp
    qed
  qed
qed

lemma tracked_collect_round: "tracked raw st \<Longrightarrow> tracked raw (collect_round src dsk limit st)"
proof -
  assume t: "tracked raw st"
  let ?st1 = "st\<lparr>fetched := fetched st @ [Catalog_req]\<rparr>"
  have t1: "tracked raw ?st1" using t by (simp add: tracked_frame)
  show ?thesis
  proof (cases "catalog_at src (length (fetched st))")
    case None
    with t1 show ?thesis by (simp add: collect_round_def Let_def tracked_frame)
  next
    case (Some pages)
    obtain e2 st2 where pl: "page_loop src dsk limit pages ?st1 = (e2, st2)"
      by (cases "page_loop src dsk limit pages ?st1")
    from tracked_page_loop [OF t1 pl] have "tracked raw st2" .
    with Some pl show ?thesis
      by (cases e2) (simp_all add: collect_round_def Let_def tracked_frame)
  qed
qed

lemma tracked_collect_while:
  "tracked raw st \<Longrightarrow> tracked raw (snd (collect_while fuel src dsk limit st))"
  by (induction fuel arbitrary: st) (auto intro: tracked_collect_round)

lemma tracked_start: "tracked raw (start raw)"
  by (simp add: tracked_def start_def first_seen_def appended_def)

lemma tracked_collect_posts: "tracked raw (snd (collect_posts fuel src dsk limit raw))"
  unfolding collect_posts_def by (rule tracked_collect_while [OF tracked_start])

subsection \<open>Runs in which every record is built and written\<close>














text \<open>
  Outside these conditions a post can be put into \<^verbatim>\<open>seen_posts\<close> and counted
  without becoming a record: when the raw file ends in a line cut short, the first
  record is written onto that line; when the write raises, the handler of the thread
  loop swallows the exception.  And a run that never reaches its target has written
  what it has found.
\<close>

lemma glued_record_is_lost:
  "collect_posts 1 one_post steady 1 cut_short =
     (True, \<lparr>seen_posts = {11}, collected = 1,
             raw_file = \<lparr>full_lines = [Corrupt], last_part = No_tail\<rparr>,
             fetched = [Catalog_req, Thread_req 1], delivered = [11], writes = 1, naps = [1]\<rparr>)"
  by (simp add: collect_posts_def start_def one_post_def collect_round_def Let_def
        save_posts_def make_record_def comment_of_def clean_comment_def cut_short_def steady_def)

lemma refused_record_is_counted:
  "collect_posts 1 one_post no_directory 1 empty_file =
     (True, \<lparr>seen_posts = {11}, collected = 1,
             raw_file = empty_file,
             fetched = [Catalog_req, Thread_req 1], delivered = [11], writes = 1, naps = [2]\<rparr>)"
  by (simp add: collect_posts_def start_def one_post_def collect_round_def Let_def
        save_posts_def make_record_def comment_of_def clean_comment_def empty_file_def
        no_directory_def)

lemma unfinished_run_has_written:
  "fst (collect_posts 3 one_post steady 2 empty_file) = False
   \<and> line_ids (appended empty_file (snd (collect_posts 3 one_post steady 2 empty_file))) = [11]"
  by (simp add: collect_posts_def start_def one_post_def collect_round_def Let_def
        save_posts_def make_record_def comment_of_def clean_comment_def empty_file_def
        steady_def appended_def entry_of_def eval_nat_numeral)

subsection \<open>Stopping at the target\<close>

text \<open>
  Claim C1.  On the end-to-end example (a page with two threads, a target of 3) the run
  does not stop when the third record is written: the thread loop has no exit, so the
  second thread of the page is still fetched and a fourth record is appended.
\<close>

theorem collect_posts_overshoots:
  "collect_posts 1 two_threads steady 3 empty_file = (True, two_threads_final)
   \<and> length (full_lines (raw_file two_threads_final)) = 4
   \<and> fetched two_threads_final = [Catalog_req, Thread_req 1, Thread_req 2]"
  by (simp add: collect_posts_def start_def two_threads_def collect_round_def Let_def
        save_posts_def make_record_def comment_of_def clean_comment_def insert_commute
        two_threads_final_def steady_def empty_file_def plain_def)

subsection \<open>Restarting on a raw file that already holds records\<close>

lemma without_file_eq:
  "without_file a = without_file b \<longleftrightarrow>
     seen_posts a = seen_posts b \<and> collected a = collected b \<and> fetched a = fetched b
     \<and> delivered a = delivered b \<and> writes a = writes b \<and> naps a = naps b \<and> crawl.more a = crawl.more b"
  by (cases a, cases b) (auto simp: without_file_def)

lemma fst_save_posts:
  "fst (save_posts outcome posts f) = (case outcome of Written \<Rightarrow> None | _ \<Rightarrow> Some OS_error)"
  by (simp add: save_posts_def split: write_outcome.splits)

lemma save_posts_pair:
  "save_posts outcome posts f =
     (case outcome of Written \<Rightarrow> None | _ \<Rightarrow> Some OS_error, snd (save_posts outcome posts f))"
  by (simp add: save_posts_def split: write_outcome.splits)

lemma post_loop_without_file:
  "without_file a = without_file b \<Longrightarrow>
     fst (post_loop dsk limit tid ps a) = fst (post_loop dsk limit tid ps b)
     \<and> without_file (snd (post_loop dsk limit tid ps a)) = without_file (snd (post_loop dsk limit tid ps b))"
proof (induction ps arbitrary: a b)
  case Nil
  then show ?case by simp
next
  case (Cons p ps)
  note same = Cons.prems [unfolded without_file_eq]
  show ?case
  proof (cases "no p")
    case None
    with Cons.prems show ?thesis by simp
  next
    case (Some pid)
    show ?thesis
    proof (cases "pid \<in> seen_posts a")
      case True
      have "without_file (a\<lparr>delivered := delivered a @ [pid]\<rparr>)
          = without_file (b\<lparr>delivered := delivered b @ [pid]\<rparr>)"
        using same by (simp add: without_file_eq)
      from Cons.IH [OF this] Some True same show ?thesis by (simp add: Let_def)
    next
      case False
      show ?thesis
      proof (cases "make_record tid pid p")
        case (Inl err)
        with Some False same show ?thesis by (simp add: Let_def without_file_eq)
      next
        case (Inr r)
        let ?res = "case dsk (writes a) of Written \<Rightarrow> None | _ \<Rightarrow> Some OS_error"
        from save_posts_pair [of "dsk (writes a)" "[r]" "raw_file a"]
        obtain fa where sa: "save_posts (dsk (writes a)) [r] (raw_file a) = (?res, fa)"
          by blast
        from save_posts_pair [of "dsk (writes a)" "[r]" "raw_file b"]
        obtain fb where "save_posts (dsk (writes a)) [r] (raw_file b) = (?res, fb)"
          by blast
        with same have sb: "save_posts (dsk (writes b)) [r] (raw_file b) = (?res, fb)"
          by simp
        let ?a3 = "a\<lparr>delivered := delivered a @ [pid], seen_posts := insert pid (seen_posts a),
                      collected := collected a + 1, raw_file := fa, writes := Suc (writes a)\<rparr>"
        let ?b3 = "b\<lparr>delivered := delivered b @ [pid], seen_posts := insert pid (seen_posts b),
                      collected := collected b + 1, raw_file := fb, writes := Suc (writes b)\<rparr>"
        have w3: "without_file ?a3 = without_file ?b3"
          using same by (simp add: without_file_eq)
        show ?thesis
        proof (cases "dsk (writes a) = Written \<and> \<not> collected ?a3 \<ge> limit")
          case True
          with Cons.IH [OF w3] Some False Inr same sa sb show ?thesis
            by (simp add: Let_def)
        next
          case False
          with w3 Some \<open>pid \<notin> seen_posts a\<close> Inr same sa sb show ?thesis
            by (auto simp: Let_def split: write_outcome.splits)
        qed
      qed
    qed
  qed
qed

lemma without_file_upd:
  "without_file a = without_file b \<Longrightarrow>
     without_file (a\<lparr>naps := naps a @ n\<rparr>) = without_file (b\<lparr>naps := naps b @ n\<rparr>)"
  "without_file a = without_file b \<Longrightarrow>
     without_file (a\<lparr>fetched := fetched a @ r\<rparr>) = without_file (b\<lparr>fetched := fetched b @ r\<rparr>)"
  by (simp_all add: without_file_eq)

lemma thread_loop_without_file:
  "without_file a = without_file b \<Longrightarrow>
     fst (thread_loop src dsk limit ts a) = fst (thread_loop src dsk limit ts b)
     \<and> without_file (snd (thread_loop src dsk limit ts a))
       = without_file (snd (thread_loop src dsk limit ts b))"
proof (induction ts arbitrary: a b)
  case Nil
  then show ?case by simp
next
  case (Cons t ts)
  note same = Cons.prems [unfolded without_file_eq]
  show ?case
  proof (cases t)
    case None
    with Cons.prems show ?thesis by simp
  next
    case (Some tid)
    let ?a1 = "a\<lparr>fetched := fetched a @ [Thread_req tid]\<rparr>"
    let ?b1 = "b\<lparr>fetched := fetched b @ [Thread_req tid]\<rparr>"
    have w1: "without_file ?a1 = without_file ?b1"
      using Cons.prems by (rule without_file_upd)
    show ?thesis
    proof (cases "thread_at src (length (fetched a)) tid")
      case None
      from without_file_upd(1) [OF w1, of "[2]"] have
        "without_file (?a1\<lparr>naps := naps ?a1 @ [2]\<rparr>) = without_file (?b1\<lparr>naps := naps ?b1 @ [2]\<rparr>)" .
      from Cons.IH [OF this] None Some same show ?thesis by (simp add: Let_def)
    next
      case (Some posts)
      obtain ea a2 where pa: "post_loop dsk limit tid posts ?a1 = (ea, a2)"
        by (cases "post_loop dsk limit tid posts ?a1")
      obtain eb b2 where pb: "post_loop dsk limit tid posts ?b1 = (eb, b2)"
        by (cases "post_loop dsk limit tid posts ?b1")
      from post_loop_without_file [OF w1, of dsk limit tid posts] pa pb
      have e: "ea = eb" and w2: "without_file a2 = without_file b2" by simp_all
      have step: "thread_loop src dsk limit (t # ts) a
            = thread_loop src dsk limit ts (a2\<lparr>naps := naps a2 @ [if ea = None then 1 else 2]\<rparr>)"
        "thread_loop src dsk limit (t # ts) b
            = thread_loop src dsk limit ts (b2\<lparr>naps := naps b2 @ [if ea = None then 1 else 2]\<rparr>)"
        using \<open>t = Some tid\<close> Some pa pb e same by (auto simp: Let_def split: option.splits)
      from without_file_upd(1) [OF w2] Cons.IH show ?thesis
        unfolding step by blast
    qed
  qed
qed

lemma page_loop_without_file:
  "without_file a = without_file b \<Longrightarrow>
     fst (page_loop src dsk limit pgs a) = fst (page_loop src dsk limit pgs b)
     \<and> without_file (snd (page_loop src dsk limit pgs a))
       = without_file (snd (page_loop src dsk limit pgs b))"
proof (induction pgs arbitrary: a b)
  case Nil
  then show ?case by simp
next
  case (Cons pg pgs)
  show ?case
  proof (cases pg)
    case None
    with Cons.prems show ?thesis by simp
  next
    case (Some ts)
    obtain ea a1 where pa: "thread_loop src dsk limit ts a = (ea, a1)"
      by (cases "thread_loop src dsk limit ts a")
    obtain eb b1 where pb: "thread_loop src dsk limit ts b = (eb, b1)"
      by (cases "thread_loop src dsk limit ts b")
    from thread_loop_without_file [OF Cons.prems, of src dsk limit ts] pa pb
    have e: "ea = eb" and w1: "without_file a1 = without_file b1" by simp_all
    from w1 have c: "collected a1 = collected b1" by (simp add: without_file_eq)
    show ?thesis
    proof (cases "ea = None \<and> \<not> collected a1 \<ge> limit")
      case True
      with Cons.IH [OF w1] Some pa pb e c show ?thesis by simp
    next
      case False
      with w1 Some pa pb e c show ?thesis by (auto split: option.splits)
    qed
  qed
qed

lemma collect_round_without_file:
  assumes "without_file a = without_file b"
  shows "without_file (collect_round src dsk limit a) = without_file (collect_round src dsk limit b)"
proof -
  note same = assms [unfolded without_file_eq]
  let ?a1 = "a\<lparr>fetched := fetched a @ [Catalog_req]\<rparr>"
  let ?b1 = "b\<lparr>fetched := fetched b @ [Catalog_req]\<rparr>"
  have w1: "without_file ?a1 = without_file ?b1"
    using assms by (rule without_file_upd)
  show ?thesis
  proof (cases "catalog_at src (length (fetched a))")
    case None
    with without_file_upd(1) [OF w1, of "[5]"] same show ?thesis
      by (simp add: collect_round_def Let_def)
  next
    case (Some pages)
    obtain ea a2 where pa: "page_loop src dsk limit pages ?a1 = (ea, a2)"
      by (cases "page_loop src dsk limit pages ?a1")
    obtain eb b2 where pb: "page_loop src dsk limit pages ?b1 = (eb, b2)"
      by (cases "page_loop src dsk limit pages ?b1")
    from page_loop_without_file [OF w1, of src dsk limit pages] pa pb
    have e: "ea = eb" and w2: "without_file a2 = without_file b2" by simp_all
    from without_file_upd(1) [OF w2, of "[5]"] w2 Some pa pb e same show ?thesis
      by (cases eb) (simp_all add: collect_round_def Let_def)
  qed
qed

lemma collect_while_without_file:
  "without_file a = without_file b \<Longrightarrow>
     fst (collect_while fuel src dsk limit a) = fst (collect_while fuel src dsk limit b)
     \<and> without_file (snd (collect_while fuel src dsk limit a))
       = without_file (snd (collect_while fuel src dsk limit b))"
proof (induction fuel arbitrary: a b)
  case 0
  then show ?case by (simp add: without_file_eq)
next
  case (Suc fuel)
  from Suc.prems have c: "collected a = collected b" by (simp add: without_file_eq)
  from Suc.IH [OF collect_round_without_file [OF Suc.prems]] Suc.prems c
  show ?case by simp
qed

lemma start_without_file: "without_file (start raw) = without_file (start empty_file)"
  by (simp add: start_def without_file_def)

text \<open>
  Claim C2, as the code has it.  \<^verbatim>\<open>collect_posts\<close> starts every run with an empty
  seen-set and never reads the raw file: at every round of a run, whether it comes to
  an end or not, everything but the content of the file (the seen-set, the count, the
  requests made, the posts read) is what it is in the run on an empty file.  Within the
  run no post number is carried by two of the lines completed.
\<close>

theorem collect_posts_restart:
  assumes "collect_posts fuel src dsk limit raw = (returned, st)"
  shows "seen_posts (start raw) = {}
    \<and> fst (collect_posts fuel src dsk limit empty_file) = returned
    \<and> without_file (snd (collect_posts fuel src dsk limit empty_file)) = without_file st
    \<and> distinct (line_ids (appended raw st))"
proof -
  from assms have st: "st = snd (collect_posts fuel src dsk limit raw)"
    and r: "returned = fst (collect_posts fuel src dsk limit raw)" by simp_all
  have "tracked raw st" unfolding st by (rule tracked_collect_posts)
  then have "distinct (line_ids (appended raw st))" by (simp add: tracked_def)
  moreover from collect_while_without_file [OF start_without_file, of fuel src dsk limit raw]
  have "fst (collect_posts fuel src dsk limit empty_file) = returned"
    "without_file (snd (collect_posts fuel src dsk limit empty_file)) = without_file st"
    unfolding st r collect_posts_def by simp_all
  ultimately show ?thesis by (simp add: start_def)
qed

theorem collect_posts_restart_witness:
  "collect_posts 1 one_post steady 1 persisted = (True, one_post_final)
   \<and> fst (collect_posts 1 one_post steady 1 empty_file) = True
   \<and> without_file (snd (collect_posts 1 one_post steady 1 empty_file)) = without_file one_post_final
   \<and> fetched (snd (collect_posts 1 one_post steady 1 empty_file)) = [Catalog_req, Thread_req 1]
   \<and> line_ids (appended persisted one_post_final) = [11]"
proof -
  have run: "collect_posts 1 one_post steady 1 persisted = (True, one_post_final)"
    by (simp add: collect_posts_def start_def one_post_def collect_round_def Let_def
        save_posts_def make_record_def comment_of_def clean_comment_def persisted_def
        one_post_final_def steady_def)
  have "fetched (snd (collect_posts 1 one_post steady 1 empty_file)) = [Catalog_req, Thread_req 1]"
    by (simp add: collect_posts_def start_def one_post_def collect_round_def Let_def
        save_posts_def make_record_def comment_of_def clean_comment_def empty_file_def steady_def)
  moreover have "line_ids (appended persisted one_post_final) = [11]"
    by (simp add: appended_def persisted_def one_post_final_def entry_of_def)
  ultimately show ?thesis
    using collect_posts_restart [OF run] run by simp
qed

text \<open>
  Claim C2, as stated, fails: with post 11 already in the raw file and a source that
  delivers post 11, the run appends a second record for post 11.
\<close>

theorem collect_posts_restart_counterexample:
  "collect_posts 1 one_post steady 1 persisted = (True, one_post_final)
   \<and> seen_posts (start persisted) = {}
   \<and> 11 \<in> set (line_ids (full_lines persisted))
   \<and> 11 \<in> set (line_ids (appended persisted one_post_final))"
  by (simp add: collect_posts_def start_def one_post_def collect_round_def Let_def
        save_posts_def make_record_def comment_of_def clean_comment_def persisted_def
        one_post_final_def steady_def appended_def entry_of_def)

section \<open>Properties of the classifiers\<close>

subsection \<open>Retrying on status 429\<close>

lemma upt_shift: "[a..<a + Suc k] = a # [Suc a..<Suc a + k]"
  by (simp add: upt_rec)

lemma openai_attempts_429:
  assumes "\<forall>i<k. \<exists>b. reply_at net (length (posted st) + i) = Response 429 b"
  shows "openai_attempts net text ([a..<a + k] @ rest) st =
         openai_attempts net text rest
           (st\<lparr>posted := posted st @ replicate k (OpenAI_call text),
                sleeps := sleeps st @ map (\<lambda>i. 2 ^ (a + i) + uniform_at net (draws st + i)) [0..<k],
                draws := draws st + k\<rparr>)"
  using assms
proof (induction k arbitrary: a st)
  case 0
  show ?case by simp
next
  case (Suc k)
  let ?st = "st\<lparr>posted := posted st @ [OpenAI_call text],
                 sleeps := sleeps st @ [2 ^ a + uniform_at net (draws st)],
                 draws := Suc (draws st)\<rparr>"
  from Suc.prems obtain b where b: "reply_at net (length (posted st)) = Response 429 b"
    by force
  have later: "\<forall>i<k. \<exists>b. reply_at net (length (posted ?st) + i) = Response 429 b"
  proof (intro allI impI)
    fix i assume "i < k"
    then have "Suc i < Suc k" by simp
    with Suc.prems obtain b' where "reply_at net (length (posted st) + Suc i) = Response 429 b'"
      by blast
    then show "\<exists>b. reply_at net (length (posted ?st) + i) = Response 429 b" by simp
  qed
  have "openai_attempts net text ([a..<a + Suc k] @ rest) st
      = openai_attempts net text ([Suc a..<Suc a + k] @ rest) ?st"
    unfolding upt_shift using b by (simp add: Let_def)
  also have "\<dots> = openai_attempts net text rest
           (?st\<lparr>posted := posted ?st @ replicate k (OpenAI_call text),
                sleeps := sleeps ?st @ map (\<lambda>i. 2 ^ (Suc a + i) + uniform_at net (draws ?st + i)) [0..<k],
                draws := draws ?st + k\<rparr>)"
    by (rule Suc.IH [OF later])
  also have "map (\<lambda>i. 2 ^ (a + i) + uniform_at net (draws st + i)) [0..<Suc k]
     = (2 ^ a + uniform_at net (draws st)) # map (\<lambda>i. 2 ^ (Suc a + i) + uniform_at net (draws ?st + i)) [0..<k]"
    by (simp add: upt_rec [of 0] map_Suc_upt [symmetric] del: upt_Suc)
  then have "(?st\<lparr>posted := posted ?st @ replicate k (OpenAI_call text),
                sleeps := sleeps ?st @ map (\<lambda>i. 2 ^ (Suc a + i) + uniform_at net (draws ?st + i)) [0..<k],
                draws := draws ?st + k\<rparr>) = 
     (st\<lparr>posted := posted st @ replicate (Suc k) (OpenAI_call text),
                sleeps := sleeps st @ map (\<lambda>i. 2 ^ (a + i) + uniform_at net (draws st + i)) [0..<Suc k],
                draws := draws st + Suc k\<rparr>)"
    by (simp del: upt_Suc)
  finally show ?case .
qed

lemma openai_attempts_frame:
  "openai_attempts net text as st = (r, st') \<Longrightarrow>
     results_file st' = results_file st \<and>
     (\<exists>n\<le>length as. (as \<noteq> [] \<longrightarrow> 0 < n) \<and> posted st' = posted st @ replicate n (OpenAI_call text))"
proof (induction as arbitrary: st)
  case Nil
  then show ?case by simp
next
  case (Cons a as)
  show ?case
  proof (cases "\<exists>b. reply_at net (length (posted st)) = Response 429 b")
    case True
    then obtain b where b: "reply_at net (length (posted st)) = Response 429 b" ..
    let ?st = "st\<lparr>posted := posted st @ [OpenAI_call text],
                 sleeps := sleeps st @ [2 ^ a + uniform_at net (draws st)],
                 draws := Suc (draws st)\<rparr>"
    from Cons.prems b have "openai_attempts net text as ?st = (r, st')"
      by (simp add: Let_def)
    from Cons.IH [OF this] obtain n where n: "n \<le> length as"
      "posted st' = posted ?st @ replicate n (OpenAI_call text)" "results_file st' = results_file st"
      by auto
    then have "posted st' = posted st @ replicate (Suc n) (OpenAI_call text)"
      by (simp add: replicate_app_Cons_same)
    with n show ?thesis by (intro conjI exI [of _ "Suc n"]) auto
  next
    case False
    with Cons.prems have "st' = st\<lparr>posted := posted st @ [OpenAI_call text]\<rparr>"
      by (auto simp: Let_def split: reply.splits if_splits option.splits)
    then show ?thesis by (intro conjI exI [of _ 1]) auto
  qed
qed

lemma analyze_openai_frame:
  assumes "analyze_openai net text 5 st = (r, st')"
  shows "results_file st' = results_file st"
    and "\<exists>n. 0 < n \<and> n \<le> 5 \<and> posted st' = posted st @ replicate n (OpenAI_call text)"
proof -
  from assms have run: "openai_attempts net text [0..<5] st = (r, st')"
    by (simp add: analyze_openai_def)
  from openai_attempts_frame [OF run] show "results_file st' = results_file st" by simp
  from openai_attempts_frame [OF run]
  show "\<exists>n. 0 < n \<and> n \<le> 5 \<and> posted st' = posted st @ replicate n (OpenAI_call text)"
    by auto
qed

text \<open>
  Claim C6.  A call of \<^verbatim>\<open>analyze_openai\<close> with the default of 5 attempts, in any
  state and for any text, never posts more than 5 times.  When the first \<open>k\<close> replies
  have status 429, it sleeps after the attempt numbered \<open>i\<close> for \<open>2 ^ i\<close> seconds plus
  the value drawn by \<^verbatim>\<open>random.uniform(0, 1)\<close>, the attempts being numbered from 0 in
  every call; if the next reply (\<open>k < 5\<close>) is a success, the call returns its verdict
  after \<open>k + 1\<close> posts, and if all 5 replies have status 429 the call returns
  \<^verbatim>\<open>None\<close> and raises nothing.
\<close>

theorem analyze_openai_backoff:
  "length (new_calls st (snd (analyze_openai net text 5 st))) \<le> 5
   \<and> (k \<le> 5
        \<and> (\<forall>i<k. \<exists>b. reply_at net (length (posted st) + i) = Response 429 b)
        \<and> (k < 5 \<longrightarrow> reply_at net (length (posted st) + k) = Response 200 (Some v))
      \<longrightarrow> fst (analyze_openai net text 5 st) = (if k < 5 then Inr (Some v) else Inr None)
        \<and> new_calls st (snd (analyze_openai net text 5 st))
            = replicate (if k < 5 then Suc k else 5) (OpenAI_call text)
        \<and> new_sleeps st (snd (analyze_openai net text 5 st))
            = map (\<lambda>attempt. 2 ^ attempt + uniform_at net (draws st + attempt)) [0..<k])"
proof -
  have bound: "length (new_calls st (snd (analyze_openai net text 5 st))) \<le> 5"
  proof -
    obtain r st' where run: "analyze_openai net text 5 st = (r, st')"
      by (cases "analyze_openai net text 5 st")
    from analyze_openai_frame(2) [OF run] show ?thesis
      using run by (auto simp: new_calls_def)
  qed
  have main: "fst (analyze_openai net text 5 st) = (if k < 5 then Inr (Some v) else Inr None)
        \<and> new_calls st (snd (analyze_openai net text 5 st))
            = replicate (if k < 5 then Suc k else 5) (OpenAI_call text)
        \<and> new_sleeps st (snd (analyze_openai net text 5 st))
            = map (\<lambda>attempt. 2 ^ attempt + uniform_at net (draws st + attempt)) [0..<k]"
    if le: "k \<le> 5"
      and throttled: "\<forall>i<k. \<exists>b. reply_at net (length (posted st) + i) = Response 429 b"
      and success: "k < 5 \<longrightarrow> reply_at net (length (posted st) + k) = Response 200 (Some v)"
  proof -
    let ?st = "st\<lparr>posted := posted st @ replicate k (OpenAI_call text),
                  sleeps := sleeps st @ map (\<lambda>i. 2 ^ (0 + i) + uniform_at net (draws st + i)) [0..<k],
                  draws := draws st + k\<rparr>"
    have split: "[0..<nat 5] = [0..<0 + k] @ [k..<5]"
    proof -
      have "[0..<k + (5 - k)] = [0..<k] @ [k..<k + (5 - k)]"
        by (rule upt_add_eq_append) simp
      moreover have "k + (5 - k) = 5" using le by simp
      ultimately show ?thesis by simp
    qed
    have run: "analyze_openai net text 5 st = openai_attempts net text [k..<5] ?st"
      unfolding analyze_openai_def split by (rule openai_attempts_429 [OF throttled])
    show ?thesis
    proof (cases "k < 5")
      case False
      with le have k: "k = 5" by simp
      then have "analyze_openai net text 5 st = (Inr None, ?st)"
        using run by simp
      then show ?thesis using k by (simp add: new_calls_def new_sleeps_def)
    next
      case True
      then have "[k..<5] = k # [Suc k..<5]" by (simp add: upt_rec)
      moreover from True success have "reply_at net (length (posted ?st)) = Response 200 (Some v)"
        by simp
      ultimately have "analyze_openai net text 5 st =
         (Inr (Some v), ?st\<lparr>posted := posted ?st @ [OpenAI_call text]\<rparr>)"
        using run by (simp add: Let_def)
      then show ?thesis using True
        by (simp add: new_calls_def new_sleeps_def replicate_append_same)
    qed
  qed
  from bound main show ?thesis by blast
qed

theorem analyze_openai_backoff_witness:
  "fst (analyze_openai (throttled 3) ''hi'' 5 idle) = Inr (Some ''ok'')
   \<and> new_calls idle (snd (analyze_openai (throttled 3) ''hi'' 5 idle)) = replicate 4 (OpenAI_call ''hi'')
   \<and> new_sleeps idle (snd (analyze_openai (throttled 3) ''hi'' 5 idle)) = [1 + 1 / 2, 2 + 1 / 2, 4 + 1 / 2]
   \<and> fst (analyze_openai (throttled 5) ''hi'' 5 idle) = Inr None
   \<and> new_calls idle (snd (analyze_openai (throttled 5) ''hi'' 5 idle)) = replicate 5 (OpenAI_call ''hi'')
   \<and> new_sleeps idle (snd (analyze_openai (throttled 5) ''hi'' 5 idle))
       = [1 + 1 / 2, 2 + 1 / 2, 4 + 1 / 2, 8 + 1 / 2, 16 + 1 / 2]"
  using analyze_openai_backoff [of idle "throttled 3" "''hi''" 3 "''ok''"]
    analyze_openai_backoff [of idle "throttled 5" "''hi''" 5 "''ok''"]
  by (simp add: throttled_def idle_def eval_nat_numeral)

subsection \<open>What a classifier call adds to the state\<close>

lemma analyze_perspective_frame:
  "analyze_perspective net text st = (pr, st') \<Longrightarrow>
     posted st' = posted st @ [Perspective_call text] \<and> results_file st' = results_file st
     \<and> pr = (case reply_at net (length (posted st)) of
               Raised \<Rightarrow> None
             | Response code body \<Rightarrow> if code = 200 then body else None)"
  by (auto simp: analyze_perspective_def Let_def split: reply.splits if_splits)

subsection \<open>The two verdicts of a post\<close>

text \<open>
  Claim C7.  For a post that has its \<^verbatim>\<open>post_id\<close>, \<^verbatim>\<open>thread_id\<close> and
  \<^verbatim>\<open>timestamp\<close>: whenever \<^verbatim>\<open>analyze_openai\<close> returns, with a verdict or with
  \<^verbatim>\<open>None\<close>, the loop body goes on to post the text to the second classifier and
  writes exactly one result record.  The field \<^verbatim>\<open>openai\<close> of that record is what
  \<^verbatim>\<open>analyze_openai\<close> returned, and its field \<^verbatim>\<open>perspective\<close> depends on the reply
  to the second call only: it is the body of a reply with status 200 and \<^verbatim>\<open>None\<close>
  otherwise.  The first classifier has been called before, whatever becomes of the
  second.
\<close>

theorem classifiers_independent:
  assumes "analyze_openai net (snd p) 5 st = (Inr oa_result, st1)"
    and "e_post_id (fst p) = Some pid" and "e_thread_id (fst p) = Some tid"
    and "e_timestamp (fst p) = Some ts"
  shows "fst (analyze_one net p st) = None
    \<and> OpenAI_call (snd p) \<in> set (new_calls st st1)
    \<and> new_calls st1 (snd (analyze_one net p st)) = [Perspective_call (snd p)]
    \<and> new_results st (snd (analyze_one net p st)) =
        [\<lparr>r_post_id = pid, r_thread_id = tid, r_timestamp = ts, r_text = snd p,
          openai = oa_result,
          perspective =
            (case reply_at net (length (posted st1)) of
               Raised \<Rightarrow> None
             | Response code body \<Rightarrow> if code = 200 then body else None)\<rparr>]
    \<and> map openai (new_results st (snd (analyze_one net p st))) = [oa_result]
    \<and> map perspective (new_results st (snd (analyze_one net p st))) =
        [case reply_at net (length (posted st1)) of
           Raised \<Rightarrow> None
         | Response code body \<Rightarrow> if code = 200 then body else None]"
proof -
  obtain pr st2 where p2: "analyze_perspective net (snd p) st1 = (pr, st2)"
    by (cases "analyze_perspective net (snd p) st1")
  note f2 = analyze_perspective_frame [OF p2]
  from analyze_openai_frame [OF assms(1)] obtain n where
    n: "0 < n" "posted st1 = posted st @ replicate n (OpenAI_call (snd p))"
    and rf: "results_file st1 = results_file st" by auto
  have res: "make_result p oa_result pr =
     Inr \<lparr>r_post_id = pid, r_thread_id = tid, r_timestamp = ts, r_text = snd p,
          openai = oa_result, perspective = pr\<rparr>"
    using assms(2-4) by (simp add: make_result_def)
  have one: "analyze_one net p st =
     (None, st2\<lparr>results_file := results_file st2 @
                   [\<lparr>r_post_id = pid, r_thread_id = tid, r_timestamp = ts, r_text = snd p,
                     openai = oa_result, perspective = pr\<rparr>],
                sleeps := sleeps st2 @ [1]\<rparr>)"
    using assms(1) p2 res by (simp add: analyze_one_def)
  from n have "OpenAI_call (snd p) \<in> set (new_calls st st1)"
    by (simp add: new_calls_def)
  with one f2 rf show ?thesis
    by (simp add: new_calls_def new_results_def)
qed

theorem classifiers_independent_witness:
  "analyze_openai a_down (snd post_b) 5 idle = (Inr None, idle\<lparr>posted := [OpenAI_call ''b'']\<rparr>)
   \<and> new_calls idle (snd (analyze_one a_down post_b idle)) = [OpenAI_call ''b'', Perspective_call ''b'']
   \<and> new_results idle (snd (analyze_one a_down post_b idle)) =
        [\<lparr>r_post_id = 12, r_thread_id = 1, r_timestamp = 0, r_text = ''b'',
          openai = None, perspective = Some ''toxic''\<rparr>]
   \<and> analyze_openai b_down (snd post_b) 5 idle
        = (Inr (Some ''flagged''), idle\<lparr>posted := [OpenAI_call ''b'']\<rparr>)
   \<and> new_calls idle (snd (analyze_one b_down post_b idle)) = [OpenAI_call ''b'', Perspective_call ''b'']
   \<and> new_results idle (snd (analyze_one b_down post_b idle)) =
        [\<lparr>r_post_id = 12, r_thread_id = 1, r_timestamp = 0, r_text = ''b'',
          openai = Some ''flagged'', perspective = None\<rparr>]"
proof -
  have a: "analyze_openai a_down (snd post_b) 5 idle = (Inr None, idle\<lparr>posted := [OpenAI_call ''b'']\<rparr>)"
    by (simp add: analyze_openai_def a_down_def post_b_def idle_def eval_nat_numeral Let_def)
  have b: "analyze_openai b_down (snd post_b) 5 idle
      = (Inr (Some ''flagged''), idle\<lparr>posted := [OpenAI_call ''b'']\<rparr>)"
    by (simp add: analyze_openai_def b_down_def post_b_def idle_def eval_nat_numeral Let_def)
  have keys: "e_post_id (fst post_b) = Some 12" "e_thread_id (fst post_b) = Some 1"
    "e_timestamp (fst post_b) = Some 0" "snd post_b = ''b''"
    by (simp_all add: post_b_def entry_of_def)
  have "new_calls idle (snd (analyze_one a_down post_b idle)) = [OpenAI_call ''b'', Perspective_call ''b'']"
    "new_calls idle (snd (analyze_one b_down post_b idle)) = [OpenAI_call ''b'', Perspective_call ''b'']"
    by (simp_all add: analyze_one_def analyze_openai_def analyze_perspective_def a_down_def
          b_down_def Let_def new_calls_def idle_def post_b_def eval_nat_numeral make_result_def
          entry_of_def)
  with classifiers_independent [OF a keys(1-3)] classifiers_independent [OF b keys(1-3)] a b keys(4)
  show ?thesis
    by (simp add: a_down_def b_down_def idle_def)
qed

section \<open>Properties of the annotation pipeline\<close>

subsection \<open>What the loops add to the state\<close>

lemma grows_analyze_one:
  assumes "analyze_one net p st = (e, st')"
  shows "grows [p] e st st'"
proof (cases "analyze_openai net (snd p) 5 st")
  case (Pair r st1)
  from analyze_openai_frame [OF Pair] obtain n where
    n: "posted st1 = posted st @ replicate n (OpenAI_call (snd p))" "0 < n"
    and rf: "results_file st1 = results_file st" by auto
  show ?thesis
  proof (cases r)
    case (Inl err)
    with Pair assms have "e = Some err" "st' = st1" by (auto simp: analyze_one_def)
    with n rf show ?thesis
      unfolding grows_def
      by (intro exI [of _ "replicate n (OpenAI_call (snd p))"] exI [of _ "[]"])
         (auto simp: call_text_def)
  next
    case (Inr oa)
    obtain pr st2 where p2: "analyze_perspective net (snd p) st1 = (pr, st2)"
      by (cases "analyze_perspective net (snd p) st1")
    from analyze_perspective_frame [OF p2]
    have f2: "posted st2 = posted st1 @ [Perspective_call (snd p)]"
      "results_file st2 = results_file st1" by auto
    let ?cs = "replicate n (OpenAI_call (snd p)) @ [Perspective_call (snd p)]"
    have calls: "posted st2 = posted st @ ?cs" "call_text ` set ?cs \<subseteq> snd ` set [p]"
      using n f2 by (auto simp: call_text_def)
    show ?thesis
    proof (cases "make_result p oa pr")
      case (Inl err)
      with Pair Inr p2 assms have "e = Some err" "st' = st2" by (auto simp: analyze_one_def)
      with calls f2 rf show ?thesis
        unfolding grows_def
        by (intro exI [of _ ?cs] exI [of _ "[]"]) simp
    next
      case res: (Inr result)
      with Pair Inr p2 assms have e: "e = None"
        and st': "st' = st2\<lparr>results_file := results_file st2 @ [result],
                           sleeps := sleeps st2 @ [1]\<rparr>"
        by (auto simp: analyze_one_def)
      from res have key: "result_key result = post_key p"
        by (auto simp: make_result_def result_key_def post_key_def split: option.splits)
      show ?thesis
        unfolding grows_def
        using calls f2 rf e st' key
        by (intro exI [of _ ?cs] exI [of _ "[result]"]) simp
    qed
  qed
qed

lemma grows_refl: "grows [] None st st"
  by (simp add: grows_def)

lemma grows_sleeps: "grows ps e st st' \<Longrightarrow> grows ps e st (st'\<lparr>sleeps := s\<rparr>)"
  by (simp add: grows_def)

lemma grows_stop: "grows ps (Some err) st st' \<Longrightarrow> grows (ps @ qs) (Some err) st st'"
  unfolding grows_def by (auto intro: prefix_prefix) blast

lemma grows_trans:
  assumes "grows ps None st st1" and "grows qs e st1 st2"
  shows "grows (ps @ qs) e st st2"
proof -
  from assms(1) obtain cs rs where 1: "posted st1 = posted st @ cs"
    "results_file st1 = results_file st @ rs" "call_text ` set cs \<subseteq> snd ` set ps"
    "map result_key rs = map post_key ps"
    by (auto simp: grows_def)
  from assms(2) obtain cs' rs' where 2: "posted st2 = posted st1 @ cs'"
    "results_file st2 = results_file st1 @ rs'" "call_text ` set cs' \<subseteq> snd ` set qs"
    "prefix (map result_key rs') (map post_key qs)"
    "e = None \<Longrightarrow> map result_key rs' = map post_key qs"
    by (auto simp: grows_def split: if_splits)
  show ?thesis
    unfolding grows_def
    apply (rule exI [of _ "cs @ cs'"])
    apply (rule exI [of _ "rs @ rs'"])
    using 1 2
    apply (auto simp: image_Un)
    done
qed

lemma grows_post_batch:
  "post_batch net ps st = (e, st') \<Longrightarrow> grows ps e st st'"
proof (induction ps arbitrary: st)
  case Nil
  then show ?case by (simp add: grows_refl)
next
  case (Cons p ps)
  obtain e1 st1 where one: "analyze_one net p st = (e1, st1)"
    by (cases "analyze_one net p st")
  note g1 = grows_analyze_one [OF one]
  show ?case
  proof (cases e1)
    case None
    with one Cons.prems have "post_batch net ps st1 = (e, st')" by simp
    from grows_trans [OF g1 [unfolded None] Cons.IH [OF this]] show ?thesis by simp
  next
    case (Some err)
    with one Cons.prems have "e = Some err" "st' = st1" by auto
    with grows_stop [OF g1 [unfolded Some], of ps] show ?thesis by simp
  qed
qed

lemma grows_batch_loop:
  "batch_loop net bs st = (e, st') \<Longrightarrow> grows (concat bs) e st st'"
proof (induction bs arbitrary: st)
  case Nil
  then show ?case by (simp add: grows_refl)
next
  case (Cons b bs)
  obtain e1 st1 where one: "post_batch net b st = (e1, st1)"
    by (cases "post_batch net b st")
  note g1 = grows_post_batch [OF one]
  show ?case
  proof (cases e1)
    case None
    with one Cons.prems have "batch_loop net bs (st1\<lparr>sleeps := sleeps st1 @ [5]\<rparr>) = (e, st')" by simp
    from grows_trans [OF grows_sleeps [OF g1 [unfolded None]] Cons.IH [OF this]] show ?thesis by simp
  next
    case (Some err)
    with one Cons.prems have "e = Some err" "st' = st1" by auto
    with grows_stop [OF g1 [unfolded Some], of "concat bs"] show ?thesis by simp
  qed
qed

subsection \<open>What the reading loop returns\<close>

lemma retained_nonpos: "limit \<le> 0 \<Longrightarrow> retained limit ls = []"
  by (simp add: retained_def)

lemma retained_Nil: "retained limit [] = []"
  by (simp add: retained_def)

lemma take_pos:
  "0 < limit \<Longrightarrow> take (nat limit) (l # ls) = l # take (nat (limit - 1)) ls"
proof -
  assume "0 < limit"
  then have "nat limit = Suc (nat (limit - 1))" by simp
  then show ?thesis by simp
qed

lemma retained_Object:
  "0 < limit \<Longrightarrow> retained limit (Object e # ls) =
     (if strip (comment_text e) = [] then retained (limit - 1) ls
      else (e, strip (comment_text e)) # retained (limit - 1) ls)"
  by (simp add: retained_def take_pos)

text \<open>
  What the reading loop returns: an exception of one of three kinds, or the retained
  posts, and these only if none of the first \<open>limit\<close> lines is unreadable.
\<close>

lemma read_loop_cases:
  "(\<exists>e. read_loop reach limit i ls acc = Inl e
        \<and> e \<in> {Unicode_decode_error, Json_decode_error, Attribute_error})
   \<or> (read_loop reach limit i ls acc = Inr (acc @ retained (limit - int i) ls)
      \<and> \<not> (\<exists>l \<in> set (take (nat (limit - int i)) ls). unreadable l))"
proof (induction ls arbitrary: i acc)
  case Nil
  show ?case by (simp add: retained_Nil)
next
  case (Cons l ls)
  show ?case
  proof (cases "Undecodable \<in> set (take (Suc (reach i - i)) (l # ls))")
    case True
    then show ?thesis by simp
  next
    case False
    note decoded = False
    show ?thesis
    proof (cases "limit \<le> int i")
      case True
      with decoded show ?thesis by (simp add: retained_nonpos)
    next
      case False
      then have pos: "0 < limit - int i" by simp
      have eq: "limit - int i - 1 = limit - int (Suc i)" by simp
      show ?thesis
      proof (cases l)
        case Undecodable
        with decoded show ?thesis by simp
      next
        case Corrupt
        with decoded False show ?thesis by (simp add: json_loads_def)
      next
        case Not_record
        with decoded False show ?thesis by (simp add: json_loads_def with_text_def)
      next
        case (Object e)
        have head: "\<not> unreadable l" using Object by (simp add: unreadable_def)
        show ?thesis
        proof (cases "strip (comment_text e) = []")
          case True
          with Cons.IH [of "Suc i" acc] decoded False Object head show ?thesis
            by (simp add: json_loads_def with_text_def take_pos [OF pos] retained_Object [OF pos] eq
                  del: of_nat_Suc)
        next
          case nonempty: False
          with Cons.IH [of "Suc i" "acc @ [(e, strip (comment_text e))]"] decoded False Object head
          show ?thesis
            by (simp add: json_loads_def with_text_def take_pos [OF pos] retained_Object [OF pos] eq
                  del: of_nat_Suc)
        qed
      qed
    qed
  qed
qed

lemma read_loop_0:
  "(\<exists>e. read_loop reach limit 0 ls [] = Inl e
        \<and> e \<in> {Unicode_decode_error, Json_decode_error, Attribute_error})
   \<or> (read_loop reach limit 0 ls [] = Inr (retained limit ls)
      \<and> \<not> (\<exists>l \<in> set (take (nat limit) ls). unreadable l))"
  using read_loop_cases [of reach limit 0 ls "[]"] by simp

lemma take_take_subset: "set (take n (l # take m ls)) \<subseteq> set (take n (l # ls))"
proof (cases n)
  case 0
  then show ?thesis by simp
next
  case (Suc k)
  have "set (take (min k m) ls) \<subseteq> set (take k ls)"
    by (rule set_take_subset_set_take) simp
  with Suc show ?thesis by (auto simp: take_take)
qed

text \<open>
  Unless the decoding of the file raises, the lines after the first \<open>limit\<close> lines
  play no part.
\<close>

lemma read_loop_take:
  "read_loop reach limit i ls acc \<noteq> Inl Unicode_decode_error \<Longrightarrow>
   read_loop reach limit i (take (nat (limit - int i)) ls) acc = read_loop reach limit i ls acc"
proof (induction ls arbitrary: i acc)
  case Nil
  show ?case by simp
next
  case (Cons l ls)
  from Cons.prems have decoded: "Undecodable \<notin> set (take (Suc (reach i - i)) (l # ls))"
    by (auto split: if_splits)
  show ?case
  proof (cases "limit \<le> int i")
    case True
    with decoded show ?thesis by simp
  next
    case False
    then have pos: "0 < limit - int i" by simp
    have eq: "limit - int i - 1 = limit - int (Suc i)" by simp
    from decoded take_take_subset [of "Suc (reach i - i)" l "nat (limit - int (Suc i))" ls]
    have decoded':
      "Undecodable \<notin> set (take (Suc (reach i - i)) (l # take (nat (limit - int (Suc i))) ls))"
      by blast
    have step: "read_loop reach limit i (l # ls) acc = read_loop reach limit (Suc i) ls acc'
      \<Longrightarrow> read_loop reach limit (Suc i) (take (nat (limit - int (Suc i))) ls) acc'
         = read_loop reach limit (Suc i) ls acc'" for acc'
      using Cons.prems by (intro Cons.IH) simp
    show ?thesis
      using decoded decoded' False step
      by (simp add: take_pos [OF pos] eq del: of_nat_Suc take_Suc_Cons
            split: sum.splits)
  qed
qed

text \<open>A file that is valid UTF-8 is read in the same way however far ahead it is decoded.\<close>

lemma read_loop_decodable:
  "Undecodable \<notin> set ls \<Longrightarrow>
   read_loop reach limit i ls acc = read_loop line_by_line limit i ls acc"
proof (induction ls arbitrary: i acc)
  case Nil
  show ?case by simp
next
  case (Cons l ls)
  from Cons.prems have "Undecodable \<notin> set (take (Suc (reach i - i)) (l # ls))"
    "Undecodable \<notin> set (take (Suc (line_by_line i - i)) (l # ls))"
    by (auto dest: in_set_takeD simp del: take_Suc_Cons)
  moreover from Cons.prems have "Undecodable \<notin> set ls" by simp
  ultimately show ?case
    by (simp add: Cons.IH del: take_Suc_Cons split: sum.splits)
qed

subsection \<open>The batches\<close>

lemma concat_chunks: "concat (map (chunk m xs) [0..<j]) = take (j * m) xs"
proof (induction j)
  case 0
  show ?case by simp
next
  case (Suc j)
  have "take (j * m) xs @ take m (drop (j * m) xs) = take (j * m + m) xs"
    by (simp add: take_add)
  with Suc show ?case by (simp add: chunk_def add.commute)
qed

lemma count_covers:
  fixes m n :: nat
  assumes "0 < m"
  shows "n \<le> (n + m - 1) div m * m"
proof -
  have "(n + m - 1) div m * m + (n + m - 1) mod m = n + m - 1" by simp
  moreover have "(n + m - 1) mod m < m" using assms by simp
  ultimately show ?thesis by linarith
qed

lemma count_tight:
  fixes m n k :: nat
  assumes "0 < m" and "k < (n + m - 1) div m"
  shows "k * m < n"
proof -
  from assms(2) have "Suc k \<le> (n + m - 1) div m" by simp
  then have "Suc k * m \<le> (n + m - 1) div m * m" by (rule mult_le_mono1)
  also have "\<dots> \<le> n + m - 1" by simp
  finally show ?thesis using assms(1) by simp
qed

lemma batches_pos:
  assumes "0 < bs"
  shows "batches bs posts =
     Inr (map (chunk (nat bs) posts) [0..<(length posts + nat bs - 1) div nat bs])"
proof -
  obtain m where m: "bs = int m" "0 < m" using assms by (metis zero_less_imp_eq_int)
  have "int (length posts) + int m - 1 = int (length posts + m - 1)" using m(2) by simp
  then have "(int (length posts) + int m - 1) div int m = int ((length posts + m - 1) div m)"
    by (simp only: zdiv_int)
  then have cnt: "nat ((int (length posts) + int m - 1) div int m) = (length posts + m - 1) div m"
    by (simp only: nat_int)
  have sl: "(\<lambda>start. slice posts start (start + int m)) \<circ> (\<lambda>k. int k * int m) = chunk m posts"
    by (rule ext) (simp add: slice_def chunk_def nat_mult_distrib)
  have "batches bs posts =
     Inr (map ((\<lambda>start. slice posts start (start + int m)) \<circ> (\<lambda>k. int k * int m))
        [0..<nat ((int (length posts) + int m - 1) div int m)])"
    using m(2) by (simp add: batches_def py_range_def m(1))
  then show ?thesis unfolding cnt sl by (simp add: m(1))
qed

lemma butlast_upt0: "butlast [0..<n] = [0..<n - 1]"
  by (cases n) simp_all

lemma batches_shape:
  assumes "0 < bs"
  shows "\<exists>bss. batches bs posts = Inr bss \<and> concat bss = posts
          \<and> (\<forall>b \<in> set bss. 0 < length b \<and> length b \<le> nat bs)
          \<and> (\<forall>b \<in> set (butlast bss). length b = nat bs)"
proof -
  let ?m = "nat bs" and ?n = "length posts"
  let ?cnt = "(?n + ?m - 1) div ?m"
  let ?bss = "map (chunk ?m posts) [0..<?cnt]"
  from assms have m: "0 < ?m" by simp
  have "concat ?bss = posts"
    using count_covers [OF m, of ?n] by (simp add: concat_chunks)
  moreover have "\<forall>b \<in> set ?bss. 0 < length b \<and> length b \<le> ?m"
  proof
    fix b assume "b \<in> set ?bss"
    then obtain k where k: "k < ?cnt" "b = chunk ?m posts k" by auto
    from count_tight [OF m k(1)] have "k * ?m < ?n" .
    with k(2) assms show "0 < length b \<and> length b \<le> ?m" by (simp add: chunk_def)
  qed
  moreover have "\<forall>b \<in> set (butlast ?bss). length b = ?m"
  proof
    fix b assume "b \<in> set (butlast ?bss)"
    then have "b \<in> set (map (chunk ?m posts) [0..<?cnt - 1])"
      by (simp only: map_butlast [symmetric] butlast_upt0)
    then obtain k where k: "k < ?cnt - 1" "b = chunk ?m posts k"
      by auto
    then have "Suc k < ?cnt" by simp
    from count_tight [OF m this] have "k * ?m + ?m < ?n" by simp
    with k(2) show "length b = ?m" by (simp add: chunk_def)
  qed
  ultimately show ?thesis using batches_pos [OF assms, of posts] by blast
qed

lemma batches_neg: "bs < 0 \<Longrightarrow> batches bs posts = Inr []"
proof -
  assume neg: "bs < 0"
  have "(0 - int (length posts) - bs - 1) div (- bs) \<le> (- bs - 1) div (- bs)"
    using neg by (intro zdiv_mono1) simp_all
  also have "(- bs - 1) div (- bs) = 0"
    using neg by (intro div_pos_pos_trivial) simp_all
  finally show ?thesis using neg by (simp add: batches_def py_range_def)
qed

lemma batches_zero: "batches 0 posts = Inl Value_error"
  by (simp add: batches_def py_range_def)

subsection \<open>The whole run\<close>

lemma grows_abort: "grows ps (Some e) st st"
  by (simp add: grows_def)

lemma analyze_read_error:
  "read_loop reach limit 0 input_file [] = Inl e \<Longrightarrow>
   analyze_posts_batched net reach input_file limit bs st = (Some e, st)"
  by (simp add: analyze_posts_batched_def)

lemma analyze_read_ok:
  "read_loop reach limit 0 input_file [] = Inr posts \<Longrightarrow>
   analyze_posts_batched net reach input_file limit bs st =
     (case batches bs posts of Inl e \<Rightarrow> (Some e, st) | Inr bss \<Rightarrow> batch_loop net bss st)"
  by (simp add: analyze_posts_batched_def)

lemma analyze_grows:
  assumes "analyze_posts_batched net reach input_file limit bs st = (e, st')"
  shows "grows (if 0 < bs then retained limit input_file else []) e st st'"
proof -
  from read_loop_0 [of reach limit input_file]
  consider err where "read_loop reach limit 0 input_file [] = Inl err"
    | "read_loop reach limit 0 input_file [] = Inr (retained limit input_file)"
    by blast
  then show ?thesis
  proof cases
    case 1
    with assms show ?thesis by (auto simp: analyze_read_error grows_abort)
  next
    case 2
    note run = assms [unfolded analyze_read_ok [OF 2]]
    consider "bs = 0" | "bs < 0" | "0 < bs" by linarith
    then show ?thesis
    proof cases
      case 1
      with run show ?thesis by (auto simp: batches_zero grows_abort)
    next
      case 2
      with run show ?thesis by (auto simp: batches_neg grows_refl)
    next
      case 3
      from batches_shape [OF 3, of "retained limit input_file"] obtain bss where
        bss: "batches bs (retained limit input_file) = Inr bss"
          "concat bss = retained limit input_file"
        by blast
      with run have "batch_loop net bss st = (e, st')" by simp
      from grows_batch_loop [OF this] bss(2) 3 show ?thesis by simp
    qed
  qed
qed

lemma retained_take: "retained limit (take (nat limit) ls) = retained limit ls"
  by (simp add: retained_def)

lemma retained_text: "p \<in> set (retained limit ls) \<Longrightarrow> snd p \<noteq> []"
  by (auto simp: retained_def)

lemma length_objects: "length (objects ls) \<le> length ls"
  by (induction ls rule: objects.induct) auto

lemma Object_in_objects: "Object e \<in> set ls \<Longrightarrow> e \<in> set (objects ls)"
  by (induction ls rule: objects.induct) auto

lemma length_retained: "length (retained limit ls) \<le> nat limit"
proof -
  have "length (retained limit ls) \<le> length (objects (take (nat limit) ls))"
    by (simp add: retained_def)
  also have "\<dots> \<le> length (take (nat limit) ls)" by (rule length_objects)
  finally show ?thesis by simp
qed

lemma length_retained_less:
  assumes "i < nat limit" "i < length ls" "ls ! i = Post r" "strip (comment r) = []"
  shows "length (retained limit ls) < nat limit"
proof -
  from assms(1,2,3) have "Post r \<in> set (take (nat limit) ls)"
    by (metis in_set_conv_nth length_take min_less_iff_conj nth_take)
  then have "entry_of r \<in> set (objects (take (nat limit) ls))" by (rule Object_in_objects)
  moreover from assms(4) have "strip (comment_text (entry_of r)) = []"
    by (simp add: comment_text_def entry_of_def)
  ultimately have "length (retained limit ls) < length (objects (take (nat limit) ls))"
    by (auto simp: retained_def intro: length_filter_less)
  also have "\<dots> \<le> length (take (nat limit) ls)" by (rule length_objects)
  finally show ?thesis by simp
qed

lemma analyze_take:
  assumes "fst (analyze_posts_batched net reach input_file limit bs st) \<noteq> Some Unicode_decode_error"
  shows "analyze_posts_batched net reach (take (nat limit) input_file) limit bs st =
         analyze_posts_batched net reach input_file limit bs st"
proof -
  from assms have "read_loop reach limit 0 input_file [] \<noteq> Inl Unicode_decode_error"
    by (auto simp: analyze_posts_batched_def)
  from read_loop_take [OF this] show ?thesis
    by (simp add: analyze_posts_batched_def)
qed

lemma analyze_decodable:
  "Undecodable \<notin> set input_file \<Longrightarrow>
   analyze_posts_batched net reach input_file limit bs st =
   analyze_posts_batched net line_by_line input_file limit bs st"
  by (simp add: analyze_posts_batched_def read_loop_decodable [of input_file reach])

text \<open>
  Only the decoding of the file raises \<^verbatim>\<open>UnicodeDecodeError\<close>, and it does so before
  anything is posted or written.
\<close>

lemma openai_attempts_error:
  "fst (openai_attempts net text attempts st) \<noteq> Inl Unicode_decode_error"
  by (induction attempts arbitrary: st)
     (auto simp: Let_def split: reply.splits option.splits)

lemma analyze_one_error:
  "fst (analyze_one net p st) \<noteq> Some Unicode_decode_error"
  using openai_attempts_error [of net "snd p" "[0..<nat 5]" st]
  by (auto simp: analyze_one_def analyze_openai_def make_result_def
           split: prod.splits sum.splits option.splits)

lemma post_batch_error:
  "fst (post_batch net ps st) \<noteq> Some Unicode_decode_error"
proof (induction ps arbitrary: st)
  case Nil
  show ?case by simp
next
  case (Cons p ps)
  show ?case
    using analyze_one_error [of net p st] Cons
    by (auto split: prod.splits option.splits)
qed

lemma batch_loop_error:
  "fst (batch_loop net bss st) \<noteq> Some Unicode_decode_error"
proof (induction bss arbitrary: st)
  case Nil
  show ?case by simp
next
  case (Cons b bss)
  show ?case
    using post_batch_error [of net b st] Cons
    by (auto split: prod.splits option.splits)
qed

lemma analyze_unicode:
  assumes "analyze_posts_batched net reach input_file limit bs st = (Some Unicode_decode_error, st')"
  shows "st' = st"
proof (cases "read_loop reach limit 0 input_file []")
  case (Inl err)
  with assms show ?thesis by (simp add: analyze_posts_batched_def)
next
  case (Inr posts)
  show ?thesis
  proof (cases "batches bs posts")
    case (Inl err)
    with assms Inr show ?thesis by (simp add: analyze_posts_batched_def)
  next
    case r: (Inr bss)
    with assms Inr have "fst (batch_loop net bss st) = Some Unicode_decode_error"
      by (simp add: analyze_posts_batched_def)
    with batch_loop_error [of net bss st] show ?thesis by simp
  qed
qed

lemma strip_samples: "strip ''  '' = []" "strip '' b '' = ''b''" "strip ''c'' = ''c''" "strip ''d'' = ''d''"
  by (simp_all add: strip_def is_space_def)

lemma retained_sample:
  "retained 3 sample_file =
     [(entry_of \<lparr>thread_id = 1, post_id = 12, timestamp = 0, comment = '' b ''\<rparr>, ''b''),
      (entry_of \<lparr>thread_id = 1, post_id = 13, timestamp = 0, comment = ''c''\<rparr>, ''c'')]"
  by (simp add: retained_def sample_file_def strip_samples eval_nat_numeral comment_text_def
        entry_of_def)

lemma retained_padded:
  "retained 2 padded_file =
     [(entry_of \<lparr>thread_id = 1, post_id = 12, timestamp = 0, comment = '' b ''\<rparr>, ''b'')]"
  by (simp add: retained_def padded_file_def strip_samples eval_nat_numeral comment_text_def
        entry_of_def)

lemmas run_defs =
  analyze_posts_batched_def json_loads_def with_text_def comment_text_def entry_of_def
  line_by_line_def batches_def py_range_def slice_def eval_nat_numeral analyze_one_def
  analyze_openai_def analyze_perspective_def make_result_def Let_def strip_samples

text \<open>
  Claim C9.  A run of \<^verbatim>\<open>analyze_posts_batched\<close>, however it ends, is the run on the
  first \<open>limit\<close> lines of the raw file; the one exception is a run that raises while the
  file is decoded, and such a run has posted nothing and written nothing.  Every
  call it posts carries the stripped comment of one of the retained posts, which is
  never empty.  The results it writes are those of an initial part of the retained
  posts, in file order, and of all of them when the run returns and the batch size is
  positive.  For a positive batch size the batches are consecutive runs of the retained
  posts: put end to end they give the retained posts, none is empty or longer than the
  batch size, and all but the last have exactly the batch size.
\<close>

theorem analyze_posts_batched_order:
  assumes "analyze_posts_batched net reach input_file limit batch_size st = (e, st')"
  shows "(if e = Some Unicode_decode_error then st' = st
          else analyze_posts_batched net reach (take (nat limit) input_file) limit batch_size st
                 = (e, st'))
    \<and> (\<forall>c \<in> set (new_calls st st').
          call_text c \<noteq> [] \<and> call_text c \<in> snd ` set (retained limit input_file))
    \<and> prefix (map result_key (new_results st st')) (map post_key (retained limit input_file))
    \<and> (e = None \<and> 0 < batch_size \<longrightarrow>
          map result_key (new_results st st') = map post_key (retained limit input_file))
    \<and> (0 < batch_size \<longrightarrow>
          (\<exists>bss. batches batch_size (retained limit input_file) = Inr bss
               \<and> concat bss = retained limit input_file
               \<and> (\<forall>b \<in> set bss. 0 < length b \<and> length b \<le> nat batch_size)
               \<and> (\<forall>b \<in> set (butlast bss). length b = nat batch_size)))"
proof -
  let ?ps = "if 0 < batch_size then retained limit input_file else []"
  have first: "e \<noteq> Some Unicode_decode_error \<Longrightarrow>
      analyze_posts_batched net reach (take (nat limit) input_file) limit batch_size st = (e, st')"
    using assms analyze_take [of net reach input_file limit batch_size st] by simp
  have abort: "e = Some Unicode_decode_error \<Longrightarrow> st' = st"
    using assms analyze_unicode [of net reach input_file limit batch_size st st'] by simp
  from analyze_grows [OF assms] obtain cs rs where g:
    "posted st' = posted st @ cs" "results_file st' = results_file st @ rs"
    "call_text ` set cs \<subseteq> snd ` set ?ps"
    "prefix (map result_key rs) (map post_key ?ps)"
    "e = None \<Longrightarrow> map result_key rs = map post_key ?ps"
    by (auto simp: grows_def split: if_splits)
  have nc: "new_calls st st' = cs" and nr: "new_results st st' = rs"
    using g(1,2) by (simp_all add: new_calls_def new_results_def)
  have calls: "\<forall>c \<in> set (new_calls st st').
          call_text c \<noteq> [] \<and> call_text c \<in> snd ` set (retained limit input_file)"
  proof
    fix c assume "c \<in> set (new_calls st st')"
    with nc g(3) have "call_text c \<in> snd ` set ?ps" by auto
    then have "call_text c \<in> snd ` set (retained limit input_file)"
      by (auto split: if_splits)
    moreover from this have "call_text c \<noteq> []" by (auto dest: retained_text)
    ultimately show "call_text c \<noteq> [] \<and> call_text c \<in> snd ` set (retained limit input_file)"
      by simp
  qed
  have pre: "prefix (map result_key (new_results st st')) (map post_key (retained limit input_file))"
    using g(4) nr by (auto split: if_splits)
  have all: "e = None \<and> 0 < batch_size \<Longrightarrow>
     map result_key (new_results st st') = map post_key (retained limit input_file)"
    using g(5) nr by simp
  from first abort calls pre all batches_shape [of batch_size "retained limit input_file"]
  show ?thesis by simp
qed

theorem analyze_posts_batched_order_witness:
  "analyze_posts_batched (throttled 0) line_by_line sample_file 3 1 idle = (None, sample_final)
   \<and> analyze_posts_batched (throttled 0) line_by_line (take 3 sample_file) 3 1 idle
       = (None, sample_final)
   \<and> map call_text (new_calls idle sample_final) = [''b'', ''b'', ''c'', ''c'']
   \<and> map r_post_id (new_results idle sample_final) = [12, 13]
   \<and> map post_key (retained 3 sample_file)
       = [(Some 12, Some 1, Some 0, ''b''), (Some 13, Some 1, Some 0, ''c'')]
   \<and> map result_key (new_results idle sample_final) = map post_key (retained 3 sample_file)
   \<and> batches 1 (retained 3 sample_file)
       = Inr [[hd (retained 3 sample_file)], tl (retained 3 sample_file)]"
proof -
  have run: "analyze_posts_batched (throttled 0) line_by_line sample_file 3 1 idle
      = (None, sample_final)"
    by (simp add: run_defs sample_file_def throttled_def idle_def sample_final_def)
  have b: "batches 1 (retained 3 sample_file)
      = Inr [[hd (retained 3 sample_file)], tl (retained 3 sample_file)]"
    by (simp add: retained_sample batches_def py_range_def slice_def eval_nat_numeral)
  have obs: "map call_text (new_calls idle sample_final) = [''b'', ''b'', ''c'', ''c'']"
    "map r_post_id (new_results idle sample_final) = [12, 13]"
    "map post_key (retained 3 sample_file)
       = [(Some 12, Some 1, Some 0, ''b''), (Some 13, Some 1, Some 0, ''c'')]"
    by (simp_all add: new_calls_def new_results_def idle_def sample_final_def call_text_def
          retained_sample post_key_def entry_of_def)
  from analyze_posts_batched_order [OF run] run b obs show ?thesis
    by simp
qed

text \<open>
  Claim C10.  The limit counts lines, not analysed posts: a run that returns (with a
  positive batch size) writes as many results as there are retained posts among the
  first \<open>limit\<close> lines, never more than \<open>limit\<close>, and fewer than \<open>limit\<close> as soon as
  one of these lines holds a record whose stripped comment is empty, whatever the file
  holds after them.
\<close>

theorem limit_counts_lines:
  assumes "analyze_posts_batched net reach input_file limit batch_size st = (None, st')"
    and "0 < batch_size"
  shows "length (new_results st st') = length (retained limit input_file)
    \<and> length (new_results st st') \<le> nat limit
    \<and> ((\<exists>i r. i < nat limit \<and> i < length input_file \<and> input_file ! i = Post r
                 \<and> strip (comment r) = [])
         \<longrightarrow> length (new_results st st') < nat limit)"
proof -
  from analyze_grows [OF assms(1)] assms(2) obtain rs where
    "results_file st' = results_file st @ rs"
    "map result_key rs = map post_key (retained limit input_file)"
    by (auto simp: grows_def)
  then have "length (new_results st st') = length (retained limit input_file)"
    by (metis append_eq_conv_conj length_map new_results_def)
  then show ?thesis
    using length_retained [of limit input_file] length_retained_less [of _ limit input_file]
    by auto
qed

theorem limit_counts_lines_witness:
  "analyze_posts_batched (throttled 0) line_by_line padded_file 2 1 idle = (None, padded_final)
   \<and> padded_file ! 0 = Post \<lparr>thread_id = 1, post_id = 11, timestamp = 0, comment = ''  ''\<rparr>
   \<and> strip ''  '' = []
   \<and> length (filter (\<lambda>e. strip (comment_text e) \<noteq> []) (objects (drop 2 padded_file))) = 2
   \<and> length (new_results idle padded_final) = 1
   \<and> length (new_results idle padded_final) < nat 2"
proof -
  have run: "analyze_posts_batched (throttled 0) line_by_line padded_file 2 1 idle
      = (None, padded_final)"
    by (simp add: run_defs padded_file_def throttled_def idle_def padded_final_def)
  have line: "padded_file ! 0 = Post \<lparr>thread_id = 1, post_id = 11, timestamp = 0, comment = ''  ''\<rparr>"
    "strip ''  '' = []"
    "length (filter (\<lambda>e. strip (comment_text e) \<noteq> []) (objects (drop 2 padded_file))) = 2"
    by (simp_all add: padded_file_def strip_samples comment_text_def entry_of_def)
  have len: "length (new_results idle padded_final) = 1"
    by (simp add: new_results_def idle_def padded_final_def)
  have "\<exists>i r. i < nat 2 \<and> i < length padded_file \<and> padded_file ! i = Post r \<and> strip (comment r) = []"
    by (intro exI [of _ 0] exI [of _ "\<lparr>thread_id = 1, post_id = 11, timestamp = 0, comment = ''  ''\<rparr>"])
       (simp add: padded_file_def strip_samples)
  with limit_counts_lines [OF run] run line len show ?thesis
    by simp
qed




text \<open>
  A line after the first \<open>limit\<close> lines can end the run too: the line numbered
  \<open>limit\<close> is delivered, and so decoded, before the loop compares its number with the
  limit.
\<close>

lemma line_after_limit_is_decoded:
  "analyze_posts_batched (throttled 0) line_by_line bytes_file 2 1 idle
     = (Some Unicode_decode_error, idle)"
  by (simp add: run_defs bytes_file_def)

subsection \<open>Exceptions of a classifier call\<close>

text \<open>
  Claim C4.  When the POST raises, \<^verbatim>\<open>analyze_perspective\<close> catches the exception and
  returns \<^verbatim>\<open>None\<close>, but \<^verbatim>\<open>analyze_openai\<close> lets it through, and so does
  \<^verbatim>\<open>analyze_posts_batched\<close>: the run ends with the exception and no result record is
  written for the post.
\<close>

theorem analyze_openai_raises:
  "analyze_openai offline ''b'' 5 idle = (Inl Request_exception, idle\<lparr>posted := [OpenAI_call ''b'']\<rparr>)
   \<and> analyze_perspective offline ''b'' idle = (None, idle\<lparr>posted := [Perspective_call ''b'']\<rparr>)
   \<and> analyze_posts_batched offline reach broken_file 1 5 idle
       = (Some Request_exception, idle\<lparr>posted := [OpenAI_call ''b'']\<rparr>)"
proof -
  have "Undecodable \<notin> set broken_file" by (simp add: broken_file_def)
  then have "analyze_posts_batched offline reach broken_file 1 5 idle
      = analyze_posts_batched offline line_by_line broken_file 1 5 idle"
    by (rule analyze_decodable)
  also have "\<dots> = (Some Request_exception, idle\<lparr>posted := [OpenAI_call ''b'']\<rparr>)"
    by (simp add: run_defs broken_file_def offline_def idle_def)
  finally show ?thesis
    by (simp add: analyze_openai_def analyze_perspective_def offline_def idle_def
          eval_nat_numeral Let_def)
qed

end
